theory Spec2Isabelle
  imports Complex_Main
begin

section \<open>Bytes, text and Python exceptions\<close>

text \<open>
  A byte string (Python \<open>bytes\<close>) is a \<open>string\<close>, a list of 8-bit characters. A Python
  \<open>str\<close> is represented by its UTF-8 encoding, so that \<open>encode('utf8')\<close> is the identity.
\<close>

abbreviation CR :: char where "CR \<equiv> CHR 0x0D"
abbreviation LF :: char where "LF \<equiv> CHR 0x0A"
abbreviation CRLF :: string where "CRLF \<equiv> [CR, LF]"

text \<open>
  The exceptions the two programs can raise, one constructor per raising site.
  \<open>OutOfScope\<close> is no Python exception: it marks an input on which the embedding does
  not follow the interpreter (text beyond ASCII, see \<open>decode_utf8\<close> and \<open>unquote\<close>).
\<close>

datatype exn =
    ValueError_range     \<comment> \<open>\<open>range()\<close> arg 3 must not be zero\<close>
  | ValueError_unpack    \<comment> \<open>not enough values to unpack\<close>
  | ValueError_int       \<comment> \<open>invalid literal for \<open>int()\<close>\<close>
  | ValueError_read      \<comment> \<open>read length must be non-negative or -1\<close>
  | OverflowError        \<comment> \<open>a read length that is no index, or too large for a byte string\<close>
  | MemoryError          \<comment> \<open>the buffer for \<open>read(n)\<close> cannot be allocated\<close>
  | AssertionError
  | AttributeError       \<comment> \<open>\<open>None\<close> has no attribute \<open>split\<close>\<close>
  | OutOfScope

section \<open>gzipServer.py: the chunked writer\<close>

text \<open>Python's \<open>data[i:j]\<close> for \<open>0 \<le> i \<le> j\<close>: both ends are clamped to the length.\<close>

definition slice :: "'a list \<Rightarrow> nat \<Rightarrow> nat \<Rightarrow> 'a list" where
  "slice xs i j = take (j - i) (drop i xs)"

text \<open>\<open>range(start, stop, step)\<close> for a positive step; a zero step raises.\<close>

function range_from :: "nat \<Rightarrow> nat \<Rightarrow> nat \<Rightarrow> nat list" where
  "range_from i stop step =
     (if step = 0 \<or> stop \<le> i then [] else i # range_from (i + step) stop step)"
  by pat_completeness auto
termination
  by (relation "measure (\<lambda>(i, stop, step). stop - i)") auto

declare range_from.simps [simp del]

definition py_range :: "nat \<Rightarrow> nat \<Rightarrow> nat \<Rightarrow> exn + nat list" where
  "py_range start stop step =
     (if step = 0 then Inl ValueError_range else Inr (range_from start stop step))"

text \<open>The format specification \<open>X\<close>: uppercase hexadecimal, no prefix, no padding.\<close>

definition hex_digit :: "nat \<Rightarrow> char" where
  "hex_digit d = ''0123456789ABCDEF'' ! d"

fun format_X :: "nat \<Rightarrow> string" where
  "format_X n =
     (if n < 16 then [hex_digit n] else format_X (n div 16) @ [hex_digit (n mod 16)])"

declare format_X.simps [simp del]

text \<open>
  Lines 27 to 31 of \<open>do_GET\<close>: one pass of the loop body appends three writes to the
  output stream \<open>wfile\<close>.
\<close>

definition write_chunk :: "string \<Rightarrow> nat \<Rightarrow> nat \<Rightarrow> string \<Rightarrow> string" where
  "write_chunk compressed_data chunk_size i wfile =
     (let chunk = slice compressed_data i (i + chunk_size)
      in wfile @ (format_X (length chunk) @ CRLF) @ chunk @ CRLF)"

text \<open>
  Lines 27 to 32: the loop over \<open>range(0, len(compressed_data), chunk_size)\<close> and the
  final write. The source fixes \<open>chunk_size = 16\<close> (\<open>do_GET_body\<close> below); the loop itself
  is written for any chunk size.
\<close>

definition send_chunked :: "nat \<Rightarrow> string \<Rightarrow> string \<Rightarrow> exn + string" where
  "send_chunked chunk_size compressed_data wfile =
     (case py_range 0 (length compressed_data) chunk_size of
        Inl e \<Rightarrow> Inl e
      | Inr starts \<Rightarrow>
          Inr (fold (write_chunk compressed_data chunk_size) starts wfile @ ''0'' @ CRLF @ CRLF))"

text \<open>The values the variable \<open>chunk\<close> (line 28) takes, in the order of the loop.\<close>

definition chunks :: "nat \<Rightarrow> string \<Rightarrow> exn + string list" where
  "chunks chunk_size compressed_data =
     (case py_range 0 (length compressed_data) chunk_size of
        Inl e \<Rightarrow> Inl e
      | Inr starts \<Rightarrow>
          Inr (map (\<lambda>i. slice compressed_data i (i + chunk_size)) starts))"

definition chunk_size_16 :: nat where
  "chunk_size_16 = 16"

text \<open>
  The body part of \<open>do_GET\<close>; \<open>compressed_data\<close> is what gzip made of the response text,
  and \<open>wfile\<close> holds the status line and headers already sent.
\<close>

definition do_GET_body :: "string \<Rightarrow> string \<Rightarrow> exn + string" where
  "do_GET_body compressed_data wfile = send_chunked chunk_size_16 compressed_data wfile"

section \<open>server.py: library functions\<close>

text \<open>
  \<open>bytes.decode('utf8')\<close>. The embedding covers ASCII streams, on which decoding is the
  identity. A byte from 0x80 on takes the model out of its scope: the interpreter would
  decode a multi-byte character or raise \<open>UnicodeDecodeError\<close>, and \<open>casefold\<close>, \<open>strip\<close>
  and \<open>int\<close> would need the Unicode tables.
\<close>

definition is_ascii :: "char \<Rightarrow> bool" where
  "is_ascii c = ((of_char c :: nat) < 128)"

definition decode_utf8 :: "string \<Rightarrow> exn + string" where
  "decode_utf8 bs = (if list_all is_ascii bs then Inr bs else Inl OutOfScope)"

text \<open>
  \<open>readline()\<close> of a buffered binary stream: the bytes up to and including the first LF,
  or all the bytes left when the stream ends before one. It returns the line and the
  rest of the stream.
\<close>

definition readline :: "string \<Rightarrow> string \<times> string" where
  "readline req =
     (let n = length (takeWhile (\<lambda>c. c \<noteq> LF) req) in (take (Suc n) req, drop (Suc n) req))"

text \<open>
  \<open>read(n)\<close> of \<open>io.BufferedReader\<close> on a blocking socket, for CPython on a 64-bit
  machine. The length must be an index (from \<open>-2^63\<close> to \<open>2^63 - 1\<close>); below \<open>-1\<close> it is
  refused and \<open>-1\<close> reads to the end of the stream. Otherwise the reader first allocates
  a byte string of \<open>n\<close> bytes, whatever the stream holds: a length above \<open>2^63 - 34\<close> is too
  large for any byte string, and one above \<open>alloc_max\<close>, the most the interpreter can
  allocate at the time of the call, exhausts the memory. \<open>alloc_max\<close> depends on the
  machine, so it is a parameter of the reader and of every function that reads a body.
  Then the result is \<open>n\<close> bytes, or fewer when the stream ends first. Memory taken in
  proportion to the bytes actually received (by \<open>readline\<close>, or by reading to the end)
  is not bounded here.
\<close>

definition read :: "nat \<Rightarrow> int \<Rightarrow> string \<Rightarrow> exn + (string \<times> string)" where
  "read alloc_max n req =
     (if n < - (2 ^ 63) then Inl OverflowError
      else if n < - 1 then Inl ValueError_read
      else if n = - 1 then Inr (req, [])
      else if 2 ^ 63 - 34 < n then Inl OverflowError
      else if alloc_max < nat n then Inl MemoryError
      else Inr (take (nat n) req, drop (nat n) req))"

text \<open>\<open>s.split(sep, maxsplit)\<close> for a one-character separator.\<close>

fun split_max :: "char \<Rightarrow> nat \<Rightarrow> string \<Rightarrow> string list" where
  "split_max sep 0 s = [s]"
| "split_max sep (Suc n) s =
     (if sep \<in> set s
      then takeWhile (\<lambda>c. c \<noteq> sep) s # split_max sep n (drop 1 (dropWhile (\<lambda>c. c \<noteq> sep) s))
      else [s])"

text \<open>\<open>s.split(sep)\<close>, with no limit.\<close>

fun split_all :: "char \<Rightarrow> string \<Rightarrow> string list" where
  "split_all sep [] = [[]]"
| "split_all sep (c # cs) =
     (if c = sep then [] # split_all sep cs
      else (case split_all sep cs of [] \<Rightarrow> [[c]] | x # xs \<Rightarrow> (c # x) # xs))"

text \<open>Tuple assignment from a list: the lengths must agree.\<close>

fun unpack2 :: "string list \<Rightarrow> exn + (string \<times> string)" where
  "unpack2 [a, b] = Inr (a, b)"
| "unpack2 xs = Inl ValueError_unpack"

fun unpack3 :: "string list \<Rightarrow> exn + (string \<times> string \<times> string)" where
  "unpack3 [a, b, c] = Inr (a, b, c)"
| "unpack3 xs = Inl ValueError_unpack"

text \<open>\<open>str.casefold()\<close> on ASCII text: the letters A to Z become a to z.\<close>

definition casefold_char :: "char \<Rightarrow> char" where
  "casefold_char c =
     (let n = (of_char c :: nat) in if 65 \<le> n \<and> n \<le> 90 then char_of (n + 32) else c)"

definition casefold :: "string \<Rightarrow> string" where
  "casefold s = map casefold_char s"

text \<open>
  \<open>str.strip()\<close> on ASCII text. Python's whitespace below 128 is TAB, LF, VT, FF, CR,
  the separators 0x1C to 0x1F, and the space.
\<close>

definition is_space :: "char \<Rightarrow> bool" where
  "is_space c = (let n = (of_char c :: nat) in (9 \<le> n \<and> n \<le> 13) \<or> (28 \<le> n \<and> n \<le> 32))"

definition strip :: "string \<Rightarrow> string" where
  "strip s = rev (dropWhile is_space (rev (dropWhile is_space s)))"

text \<open>
  \<open>int(s)\<close> on ASCII text: surrounding whitespace, an optional sign, then decimal digits
  in groups separated by single underscores. The whitespace \<open>int\<close> skips on ASCII text is
  that of C (TAB, LF, VT, FF, CR and the space), not the separators 0x1C to 0x1F that
  \<open>strip\<close> removes. More than 4300 digits are refused (the interpreter's default limit
  for the conversion).
\<close>

definition is_digit :: "char \<Rightarrow> bool" where
  "is_digit c = (let n = (of_char c :: nat) in 48 \<le> n \<and> n \<le> 57)"

definition is_c_space :: "char \<Rightarrow> bool" where
  "is_c_space c = (let n = (of_char c :: nat) in (9 \<le> n \<and> n \<le> 13) \<or> n = 32)"

definition decimal_value :: "string \<Rightarrow> nat" where
  "decimal_value ds = foldl (\<lambda>acc c. 10 * acc + (of_char c - 48)) 0 ds"

definition py_int :: "string \<Rightarrow> exn + int" where
  "py_int s =
     (let t = rev (dropWhile is_c_space (rev (dropWhile is_c_space s)));
          neg = (take 1 t = ''-'');
          u = (if take 1 t = ''-'' \<or> take 1 t = ''+'' then drop 1 t else t);
          groups = split_all (CHR ''_'') u;
          ds = concat groups
      in if list_all (\<lambda>g. g \<noteq> [] \<and> list_all is_digit g) groups \<and> length ds \<le> 4300
         then Inr (if neg then - int (decimal_value ds) else int (decimal_value ds))
         else Inl ValueError_int)"

text \<open>
  \<open>urllib.parse.unquote_plus\<close>: every \<open>+\<close> becomes a space, then every \<open>%XX\<close> with two
  hexadecimal digits becomes the byte \<open>XX\<close>, from left to right; a \<open>%\<close> not followed by
  two hexadecimal digits stays. The interpreter then decodes the bytes as UTF-8 and
  replaces what is malformed; a byte from 0x80 on is out of the model's scope.
\<close>

definition is_hexdig :: "char \<Rightarrow> bool" where
  "is_hexdig c =
     (let n = (of_char c :: nat)
      in (48 \<le> n \<and> n \<le> 57) \<or> (65 \<le> n \<and> n \<le> 70) \<or> (97 \<le> n \<and> n \<le> 102))"

definition hexdig_value :: "char \<Rightarrow> nat" where
  "hexdig_value c =
     (let n = (of_char c :: nat)
      in if n \<le> 57 then n - 48 else if n \<le> 70 then n - 55 else n - 87)"

fun unquote :: "string \<Rightarrow> exn + string" where
  "unquote (c # a # b # rest) =
     (if c = CHR ''%'' \<and> is_hexdig a \<and> is_hexdig b
      then (if 8 \<le> hexdig_value a then Inl OutOfScope
            else (case unquote rest of
                    Inl e \<Rightarrow> Inl e
                  | Inr r \<Rightarrow> Inr (char_of (16 * hexdig_value a + hexdig_value b) # r)))
      else (case unquote (a # b # rest) of Inl e \<Rightarrow> Inl e | Inr r \<Rightarrow> Inr (c # r)))"
| "unquote s = Inr s"

definition unquote_plus :: "string \<Rightarrow> exn + string" where
  "unquote_plus s = unquote (map (\<lambda>c. if c = CHR ''+'' then CHR '' '' else c) s)"

text \<open>\<open>'{}'.format(n)\<close> for a length: decimal digits.\<close>

fun format_d :: "nat \<Rightarrow> string" where
  "format_d n =
     (if n < 10 then [char_of (48 + n)] else format_d (n div 10) @ [char_of (48 + n mod 10)])"

declare format_d.simps [simp del]

section \<open>server.py: the request parser\<close>

type_synonym header_map = "string \<rightharpoonup> string"

text \<open>
  Lines 21 to 27 of \<open>handle_connection\<close>: the header loop. \<open>req\<close> is what is left of the
  stream; the loop returns the dictionary and the stream after the blank line.
\<close>

function read_headers :: "string \<Rightarrow> header_map \<Rightarrow> exn + (header_map \<times> string)" where
  "read_headers req headers =
     (case decode_utf8 (fst (readline req)) of
        Inl e \<Rightarrow> Inl e
      | Inr line \<Rightarrow>
          if line = CRLF then Inr (headers, snd (readline req))
          else (case unpack2 (split_max (CHR '':'') 1 line) of
                  Inl e \<Rightarrow> Inl e
                | Inr (header, val) \<Rightarrow>
                    read_headers (snd (readline req)) (headers(casefold header \<mapsto> strip val))))"
  by pat_completeness auto
termination
proof (relation "measure (\<lambda>(req, headers). length req)")
  show "wf (measure (\<lambda>(req, headers). length req))" by simp
next
  fix req :: string and headers :: header_map and line p header val
  assume dec: "decode_utf8 (fst (readline req)) = Inr line"
    and un: "unpack2 (split_max (CHR '':'') 1 line) = Inr p"
  have "req \<noteq> []"
  proof
    assume "req = []"
    then have "line = []" using dec by (simp add: readline_def decode_utf8_def Let_def)
    then show False using un by simp
  qed
  then show "((snd (readline req), headers(casefold header \<mapsto> strip val)), (req, headers))
      \<in> measure (\<lambda>(req, headers). length req)"
    by (simp add: readline_def Let_def)
qed

declare read_headers.simps [simp del]

text \<open>The request as lines 16 to 34 leave it in the local variables.\<close>

record request =
  rq_method :: string
  rq_url :: string
  rq_version :: string
  rq_headers :: header_map
  rq_body :: "string option"

text \<open>Lines 30 to 34: the body, read when a \<open>content-length\<close> header is present.\<close>

definition read_body :: "nat \<Rightarrow> header_map \<Rightarrow> string \<Rightarrow> exn + (string option \<times> string)" where
  "read_body alloc_max headers req =
     (case headers ''content-length'' of
        None \<Rightarrow> Inr (None, req)
      | Some v \<Rightarrow>
          (case py_int v of
             Inl e \<Rightarrow> Inl e
           | Inr len \<Rightarrow>
               (case read alloc_max len req of
                  Inl e \<Rightarrow> Inl e
                | Inr (bytes, req') \<Rightarrow>
                    (case decode_utf8 bytes of
                       Inl e \<Rightarrow> Inl e
                     | Inr body \<Rightarrow> Inr (Some body, req')))))"

text \<open>Lines 15 to 34: request line, assertion, headers, body.\<close>

definition read_request :: "nat \<Rightarrow> string \<Rightarrow> exn + (request \<times> string)" where
  "read_request alloc_max req =
     (case decode_utf8 (fst (readline req)) of
        Inl e \<Rightarrow> Inl e
      | Inr reqline \<Rightarrow>
          (case unpack3 (split_max (CHR '' '') 2 reqline) of
             Inl e \<Rightarrow> Inl e
           | Inr (method, url, version) \<Rightarrow>
               if \<not> (method = ''GET'' \<or> method = ''POST'') then Inl AssertionError
               else (case read_headers (snd (readline req)) Map.empty of
                       Inl e \<Rightarrow> Inl e
                     | Inr (headers, req') \<Rightarrow>
                         (case read_body alloc_max headers req' of
                            Inl e \<Rightarrow> Inl e
                          | Inr (body, req'') \<Rightarrow>
                              Inr (\<lparr>rq_method = method, rq_url = url, rq_version = version,
                                    rq_headers = headers, rq_body = body\<rparr>, req'')))))"

section \<open>server.py: the guest book\<close>

text \<open>
  The module-level list \<open>ENTRIES\<close> is the only state. Every function that reads it takes
  it as an argument, and every function that may append to it returns the new list.
\<close>

definition ENTRIES_initial :: "string list" where
  "ENTRIES_initial = [''braheezy was here'']"

definition show_comments :: "string list \<Rightarrow> string" where
  "show_comments entries =
     fold (\<lambda>entry out. out @ ''<p>'' @ entry @ ''</p>'') entries ''<!doctype html>''
       @ ''<form action=add method=post>''
       @ ''<p><input name=guest></p>''
       @ ''<p><button>Sign the book!</button></p>''
       @ ''</form>''"

text \<open>The loop of \<open>form_decode\<close> (lines 71 to 75) over the fields, with the dictionary.\<close>

fun form_decode_fields :: "string list \<Rightarrow> (string \<rightharpoonup> string) \<Rightarrow> exn + (string \<rightharpoonup> string)" where
  "form_decode_fields [] params = Inr params"
| "form_decode_fields (field # others) params =
     (case unpack2 (split_max (CHR ''='') 1 field) of
        Inl e \<Rightarrow> Inl e
      | Inr (name, val) \<Rightarrow>
          (case unquote_plus name of
             Inl e \<Rightarrow> Inl e
           | Inr name' \<Rightarrow>
               (case unquote_plus val of
                  Inl e \<Rightarrow> Inl e
                | Inr val' \<Rightarrow> form_decode_fields others (params(name' \<mapsto> val')))))"

text \<open>\<open>body\<close> is \<open>None\<close> when the request had no \<open>content-length\<close> header.\<close>

definition form_decode :: "string option \<Rightarrow> exn + (string \<rightharpoonup> string)" where
  "form_decode body =
     (case body of
        None \<Rightarrow> Inl AttributeError
      | Some b \<Rightarrow> form_decode_fields (split_all (CHR ''&'') b) Map.empty)"

definition add_entry :: "(string \<rightharpoonup> string) \<Rightarrow> string list \<Rightarrow> string \<times> string list" where
  "add_entry params entries =
     (let entries' = (case params ''guest'' of None \<Rightarrow> entries | Some g \<Rightarrow> entries @ [g])
      in (show_comments entries', entries'))"

definition not_found :: "string \<Rightarrow> string \<Rightarrow> string" where
  "not_found url method =
     ''<!doctype html>'' @ (''<h1>'' @ method @ '' '' @ url @ '' not found!</h1>'')"

text \<open>
  \<open>do_request\<close> returns the status and the page, or the exception raised, and in both
  cases the entry list as the call leaves it.
\<close>

definition do_request ::
  "string \<Rightarrow> string \<Rightarrow> header_map \<Rightarrow> string option \<Rightarrow> string list
     \<Rightarrow> (exn + (string \<times> string)) \<times> string list" where
  "do_request method url headers body entries =
     (if method = ''GET'' \<and> url = ''/'' then (Inr (''200 OK'', show_comments entries), entries)
      else if method = ''POST'' \<and> url = ''/add'' then
        (case form_decode body of
           Inl e \<Rightarrow> (Inl e, entries)
         | Inr params \<Rightarrow>
             (Inr (''200 OK'', fst (add_entry params entries)), snd (add_entry params entries)))
      else (Inr (''404 Not Found'', not_found url method), entries))"

text \<open>
  \<open>handle_connection\<close>: the bytes of the connection in, the bytes sent (or the exception)
  and the entry list out.
\<close>

definition handle_connection ::
  "nat \<Rightarrow> string \<Rightarrow> string list \<Rightarrow> (exn + string) \<times> string list" where
  "handle_connection alloc_max conx entries =
     (case read_request alloc_max conx of
        Inl e \<Rightarrow> (Inl e, entries)
      | Inr (r, rest) \<Rightarrow>
          (case do_request (rq_method r) (rq_url r) (rq_headers r) (rq_body r) entries of
             (Inl e, entries') \<Rightarrow> (Inl e, entries')
           | (Inr (status, response_body), entries') \<Rightarrow>
               (Inr (''HTTP/1.0 '' @ status @ CRLF
                     @ ''Content-Length: '' @ format_d (length response_body) @ CRLF
                     @ CRLF @ response_body),
                entries')))"

section \<open>Shapes of input used in the statements\<close>

text \<open>
  These describe inputs and expected results in the words of the specification; none of
  them is part of the programs.
\<close>

text \<open>A line as \<open>readline\<close> returns it before the stream ends: some bytes with no LF, then LF.\<close>

definition complete_line :: "string \<Rightarrow> bool" where
  "complete_line l = (l \<noteq> [] \<and> last l = LF \<and> LF \<notin> set (butlast l))"

text \<open>A header line made of a name with no colon, a colon, a value, and LF.\<close>

definition header_line :: "string \<times> string \<Rightarrow> string" where
  "header_line nv = fst nv @ '':'' @ snd nv @ [LF]"

definition header_line_ok :: "string \<times> string \<Rightarrow> bool" where
  "header_line_ok nv =
     (CHR '':'' \<notin> set (fst nv) \<and> LF \<notin> set (fst nv) \<and> LF \<notin> set (snd nv)
      \<and> list_all is_ascii (fst nv) \<and> list_all is_ascii (snd nv))"

text \<open>Two characters that are equal, or the same ASCII letter in the two cases.\<close>

definition same_letter :: "char \<Rightarrow> char \<Rightarrow> bool" where
  "same_letter a b =
     (a = b
      \<or> (65 \<le> (of_char a :: nat) \<and> (of_char a :: nat) \<le> 90 \<and> (of_char b :: nat) = of_char a + 32)
      \<or> (65 \<le> (of_char b :: nat) \<and> (of_char b :: nat) \<le> 90 \<and> (of_char a :: nat) = of_char b + 32))"

definition differ_in_case_only :: "string \<Rightarrow> string \<Rightarrow> bool" where
  "differ_in_case_only s t = list_all2 same_letter s t"

text \<open>The inverse of \<open>split\<close>: the pieces with the separator between them.\<close>

fun join :: "char \<Rightarrow> string list \<Rightarrow> string" where
  "join sep [] = []"
| "join sep [x] = x"
| "join sep (x # y # ys) = x @ sep # join sep (y # ys)"

text \<open>A form field \<open>name=value\<close> and the pair it decodes to.\<close>

definition field_decodes_to :: "string \<Rightarrow> string \<times> string \<Rightarrow> bool" where
  "field_decodes_to field kv =
     (CHR ''='' \<in> set field
      \<and> unquote_plus (takeWhile (\<lambda>c. c \<noteq> CHR ''='') field) = Inr (fst kv)
      \<and> unquote_plus (drop 1 (dropWhile (\<lambda>c. c \<noteq> CHR ''='') field)) = Inr (snd kv))"

text \<open>What a reader of the output makes of a hexadecimal chunk length.\<close>

definition hex_digit_value :: "char \<Rightarrow> nat" where
  "hex_digit_value c =
     (let n = (of_char c :: nat) in if 48 \<le> n \<and> n \<le> 57 then n - 48 else n - 55)"

definition hex_value :: "string \<Rightarrow> nat" where
  "hex_value s = foldl (\<lambda>acc c. 16 * acc + hex_digit_value c) 0 s"

section \<open>Properties of the chunked writer\<close>

lemma range_from_step:
  "0 < step \<Longrightarrow> i < stop \<Longrightarrow> range_from i stop step = i # range_from (i + step) stop step"
  by (subst range_from.simps) simp

lemma range_from_done:
  "stop \<le> i \<Longrightarrow> range_from i stop step = []"
  by (subst range_from.simps) simp

lemma concat_chunks_from:
  "0 < s \<Longrightarrow> concat (map (\<lambda>i. slice data i (i + s)) (range_from i (length data) s)) = drop i data"
proof (induction i "length data" s rule: range_from.induct)
  case (1 i step)
  show ?case
  proof (cases "length data \<le> i")
    case True
    then show ?thesis by (simp add: range_from_done)
  next
    case False
    then have lt: "i < length data" by simp
    have "take step (drop i data) @ drop (i + step) data = drop i data"
      by (metis append_take_drop_id drop_drop add.commute)
    with 1 lt show ?thesis
      by (simp add: range_from_step slice_def)
  qed
qed

lemma length_range_from:
  "0 < s \<Longrightarrow> length (range_from i n s) = (n - i + s - 1) div s"
proof (induction i n s rule: range_from.induct)
  case (1 i n s)
  show ?case
  proof (cases "n \<le> i")
    case True
    with 1 show ?thesis by (simp add: range_from_done)
  next
    case False
    then have lt: "i < n" by simp
    have "(n - i + s - 1) div s = Suc ((n - (i + s) + s - 1) div s)"
    proof (cases "i + s \<le> n")
      case True
      then have "n - i + s - 1 = (n - (i + s) + s - 1) + s" using 1(2) by simp
      then show ?thesis using 1(2) by (simp only: div_add_self2) 
    next
      case False
      then have z: "n - (i + s) = 0" by simp
      have "s \<le> n - i + s - 1" "n - i + s - 1 < 2 * s" using lt False by simp_all
      then have "(n - i + s - 1) div s = 1"
        by (intro div_nat_eqI) simp_all
      then show ?thesis using 1(2) z by simp
    qed
    with 1 lt show ?thesis by (simp add: range_from_step)
  qed
qed

lemma range_from_bounds:
  "0 < s \<Longrightarrow> j \<in> set (range_from i n s) \<Longrightarrow> j < n"
proof (induction i n s rule: range_from.induct)
  case (1 i n s)
  then show ?case
    by (cases "n \<le> i") (auto simp: range_from_done range_from_step)
qed

lemma range_from_butlast:
  "0 < s \<Longrightarrow> j \<in> set (butlast (range_from i n s)) \<Longrightarrow> j + s < n"
proof (induction i n s rule: range_from.induct)
  case (1 i n s)
  show ?case
  proof (cases "n \<le> i")
    case True
    with 1 show ?thesis by (simp add: range_from_done)
  next
    case False
    then have lt: "i < n" by simp
    show ?thesis
    proof (cases "n \<le> i + s")
      case True
      with 1 lt show ?thesis by (simp add: range_from_step range_from_done)
    next
      case False
      then have "range_from (i + s) n s \<noteq> []"
        using 1(2) by (simp add: range_from_step)
      with 1 lt False show ?thesis
        by (auto simp: range_from_step)
    qed
  qed
qed

lemma fold_write_chunk:
  "fold (write_chunk data s) starts w =
     w @ concat (map (\<lambda>i. format_X (length (slice data i (i + s))) @ CRLF @ slice data i (i + s) @ CRLF) starts)"
  by (induction starts arbitrary: w) (simp_all add: write_chunk_def Let_def)

lemma send_chunked_frames:
  assumes "chunks s data = Inr cs"
  shows "send_chunked s data w =
           Inr (w @ concat (map (\<lambda>c. format_X (length c) @ CRLF @ c @ CRLF) cs) @ ''0'' @ CRLF @ CRLF)"
  using assms
  by (auto simp: chunks_def send_chunked_def fold_write_chunk comp_def split: sum.splits)

lemma hex_digit_cases:
  assumes "d < 16"
  shows "d \<in> set [0, 1, 2, 3, 4, 5, 6, 7, 8, 9, 10, 11, 12, 13, 14, 15::nat]"
  using assms by (simp add: numeral_eq_Suc less_Suc_eq) arith?

lemma hex_digit_value_inverse: "d < 16 \<Longrightarrow> hex_digit_value (hex_digit d) = d"
  using hex_digit_cases [of d]
  by (auto simp: hex_digit_def hex_digit_value_def)

lemma hex_digit_in: "d < 16 \<Longrightarrow> hex_digit d \<in> set ''0123456789ABCDEF''"
  unfolding hex_digit_def by (rule nth_mem) simp

lemma hex_digit_nonzero: "0 < d \<Longrightarrow> d < 16 \<Longrightarrow> hex_digit d \<noteq> CHR ''0''"
  using hex_digit_cases [of d]
  by (auto simp: hex_digit_def)

lemma hex_value_snoc: "hex_value (s @ [c]) = 16 * hex_value s + hex_digit_value c"
  by (simp add: hex_value_def)

lemma format_X_nonempty: "format_X n \<noteq> []"
  by (subst format_X.simps) simp

lemma hex_value_format_X: "hex_value (format_X n) = n"
proof (induction n rule: format_X.induct)
  case (1 n)
  show ?case
  proof (cases "n < 16")
    case True
    then show ?thesis
      by (subst format_X.simps) (simp add: hex_value_def hex_digit_value_inverse)
  next
    case False
    with 1 show ?thesis
      by (subst format_X.simps) (simp add: hex_value_snoc hex_digit_value_inverse)
  qed
qed

lemma format_X_digits: "set (format_X n) \<subseteq> set ''0123456789ABCDEF''"
proof (induction n rule: format_X.induct)
  case (1 n)
  have "hex_digit (n mod 16) \<in> set ''0123456789ABCDEF''"
    by (rule hex_digit_in) simp
  moreover have "n < 16 \<Longrightarrow> hex_digit n \<in> set ''0123456789ABCDEF''"
    by (rule hex_digit_in)
  ultimately show ?case using 1
    by (subst format_X.simps) (cases "n < 16"; simp)
qed

lemma format_X_no_leading_zero: "0 < n \<Longrightarrow> hd (format_X n) \<noteq> CHR ''0''"
proof (induction n rule: format_X.induct)
  case (1 n)
  show ?case
  proof (cases "n < 16")
    case True
    with 1(2) show ?thesis
      by (subst format_X.simps) (simp add: hex_digit_nonzero)
  next
    case False
    then have "0 < n div 16" by simp
    with 1 False show ?thesis
      by (subst format_X.simps) (simp add: format_X_nonempty)
  qed
qed

lemma ceil_div_nat:
  assumes "0 < s"
  shows "int ((n + s - 1) div s) = \<lceil>real n / real s\<rceil>"
proof -
  define q where "q = (n + s - 1) div s"
  have "n + s - 1 < q * s + s"
    unfolding q_def using assms by (metis dividend_less_div_times mult.commute add.commute)
  then have le: "n \<le> q * s" using assms by linarith
  have "q * s \<le> n + s - 1"
    unfolding q_def using assms by (simp add: mult.commute)
  then have lt: "q * s < n + s" using assms by linarith
  have "real n \<le> real q * real s"
    using le by (metis of_nat_le_iff of_nat_mult)
  then have up: "real n / real s \<le> of_int (int q)"
    using assms by (simp add: pos_divide_le_eq)
  have "real q * real s < real n + real s"
    using lt by (metis of_nat_less_iff of_nat_mult of_nat_add)
  then have "(real q - 1) * real s < real n"
    by (simp add: algebra_simps)
  then have lo: "of_int (int q) - 1 < real n / real s"
    using assms by (simp add: pos_less_divide_eq)
  have "\<lceil>real n / real s\<rceil> = int q"
    using lo up by (rule ceiling_unique)
  then show ?thesis by (simp add: q_def)
qed


lemma chunks_positive:
  assumes "0 < S"
  shows "\<exists>cs. chunks S data = Inr cs \<and> (\<forall>c \<in> set cs. 0 < length c)"
proof -
  have "0 < length (slice data i (i + S))" if "i \<in> set (range_from 0 (length data) S)" for i
    using range_from_bounds [OF assms that] assms by (simp add: slice_def)
  then show ?thesis
    using assms by (simp add: chunks_def py_range_def)
qed

text \<open>
  C1. For every compressed payload of length \<open>L\<close> and every chunk size \<open>S \<ge> 1\<close> the loop
  emits \<open>ceil(L/S)\<close> data chunks (none when \<open>L = 0\<close>); every chunk before the last has
  length \<open>S\<close>, the last has a length from 1 to \<open>S\<close>, and the chunks concatenated in the
  order of emission are the compressed bytes. The last conjunct ties the chunks to the
  bytes written.
\<close>

theorem chunk_size_law:
  assumes "1 \<le> S"
  shows "\<exists>cs. chunks S data = Inr cs
      \<and> length cs = (length data + S - 1) div S
      \<and> int (length cs) = \<lceil>real (length data) / real S\<rceil>
      \<and> (length data = 0 \<longrightarrow> cs = [])
      \<and> (\<forall>k. Suc k < length cs \<longrightarrow> length (cs ! k) = S)
      \<and> (cs \<noteq> [] \<longrightarrow> 1 \<le> length (last cs) \<and> length (last cs) \<le> S)
      \<and> concat cs = data
      \<and> (\<forall>w. send_chunked S data w =
            Inr (w @ concat (map (\<lambda>c. format_X (length c) @ CRLF @ c @ CRLF) cs) @ ''0'' @ CRLF @ CRLF))"
proof -
  define starts where "starts = range_from 0 (length data) S"
  define cs where "cs = map (\<lambda>i. slice data i (i + S)) starts"
  have pos: "0 < S" using assms by simp
  have eq: "chunks S data = Inr cs"
    using pos by (simp add: chunks_def py_range_def cs_def starts_def)
  have len: "length cs = (length data + S - 1) div S"
    using pos by (simp add: cs_def starts_def length_range_from)
  have ceil: "int (length cs) = \<lceil>real (length data) / real S\<rceil>"
    using ceil_div_nat [OF pos, of "length data"] len by simp
  have empty: "length data = 0 \<longrightarrow> cs = []"
    by (simp add: cs_def starts_def range_from_done)
  have full: "length (cs ! k) = S" if "Suc k < length cs" for k
  proof -
    from that have k: "k < length (butlast starts)" by (simp add: cs_def)
    then have "butlast starts ! k \<in> set (butlast starts)" by (rule nth_mem)
    moreover have "butlast starts ! k = starts ! k" using k by (simp add: nth_butlast)
    ultimately have "starts ! k + S < length data"
      using pos range_from_butlast [of S "starts ! k" 0 "length data"] by (simp add: starts_def)
    moreover have "cs ! k = slice data (starts ! k) (starts ! k + S)"
      using that by (simp add: cs_def)
    ultimately show ?thesis by (simp add: slice_def)
  qed
  have lst: "1 \<le> length (last cs) \<and> length (last cs) \<le> S" if "cs \<noteq> []"
  proof -
    from that have ne: "starts \<noteq> []" by (simp add: cs_def)
    then have "last starts \<in> set starts" by simp
    then have "last starts < length data"
      using pos range_from_bounds [of S "last starts" 0 "length data"] by (simp add: starts_def)
    moreover have "last cs = slice data (last starts) (last starts + S)"
      using ne by (simp add: cs_def last_map)
    ultimately show ?thesis using pos by (simp add: slice_def)
  qed
  have cat: "concat cs = data"
    using pos concat_chunks_from [of S data 0] by (simp add: cs_def starts_def)
  have out: "\<forall>w. send_chunked S data w =
            Inr (w @ concat (map (\<lambda>c. format_X (length c) @ CRLF @ c @ CRLF) cs) @ ''0'' @ CRLF @ CRLF)"
    using send_chunked_frames [OF eq] by simp
  from eq len ceil empty full lst cat out show ?thesis by blast
qed

theorem chunk_size_law_witness:
  "(1::nat) \<le> 4
   \<and> chunks 4 ''abcdefghij'' = Inr [''abcd'', ''efgh'', ''ij'']
   \<and> (\<exists>cs. chunks 4 ''abcdefghij'' = Inr cs \<and> length cs = 3 \<and> length (cs ! 0) = 4
         \<and> length (cs ! 1) = 4 \<and> length (last cs) = 2 \<and> concat cs = ''abcdefghij'')"
proof -
  have run: "chunks 4 ''abcdefghij'' = Inr [''abcd'', ''efgh'', ''ij'']"
    by (simp add: chunks_def py_range_def range_from.simps slice_def)
  obtain cs where cs: "chunks 4 ''abcdefghij'' = Inr cs"
      "length cs = (length ''abcdefghij'' + 4 - 1) div 4"
      "\<forall>k. Suc k < length cs \<longrightarrow> length (cs ! k) = 4"
      "concat cs = ''abcdefghij''"
    using chunk_size_law [of 4 "''abcdefghij''"] by auto
  from cs(2) have three: "length cs = 3" by simp
  with cs(3) have "length (cs ! 0) = 4" "length (cs ! 1) = 4" by simp_all
  moreover have "length (last cs) = 2"
  proof -
    from cs(1) run have "cs = [''abcd'', ''efgh'', ''ij'']" by simp
    then show ?thesis by simp
  qed
  ultimately show ?thesis using run cs three by simp
qed

text \<open>
  C2. Every slice is written as its length in uppercase hexadecimal (digits
  \<open>0-9A-F\<close> only, hence no \<open>0x\<close> prefix, and no leading zero), CRLF, the slice, CRLF;
  the terminal marker \<open>0 CRLF CRLF\<close> ends the output. \<open>hex_value\<close> reads the length
  back, so the digits are the right ones. With the chunk size 16 of the source the
  writer never fails, and its output ends with the terminal marker.
\<close>

theorem chunk_framing:
  assumes "1 \<le> S"
  shows "\<exists>cs. chunks S data = Inr cs
      \<and> send_chunked S data w =
            Inr (w @ concat (map (\<lambda>c. format_X (length c) @ CRLF @ c @ CRLF) cs) @ ''0'' @ CRLF @ CRLF)
      \<and> (\<forall>c \<in> set cs. set (format_X (length c)) \<subseteq> set ''0123456789ABCDEF''
            \<and> hex_value (format_X (length c)) = length c
            \<and> hd (format_X (length c)) \<noteq> CHR ''0'')
      \<and> (\<exists>out. do_GET_body data w = Inr (w @ out @ ''0'' @ CRLF @ CRLF))"
proof -
  from assms obtain cs where cs: "chunks S data = Inr cs" "\<forall>c \<in> set cs. 0 < length c"
    using chunks_positive [of S data] by auto
  obtain cs16 where "chunks 16 data = Inr cs16"
    using chunks_positive [of 16 data] by auto
  then have "do_GET_body data w =
      Inr (w @ concat (map (\<lambda>c. format_X (length c) @ CRLF @ c @ CRLF) cs16) @ ''0'' @ CRLF @ CRLF)"
    unfolding do_GET_body_def chunk_size_16_def by (rule send_chunked_frames)
  then have body: "\<exists>out. do_GET_body data w = Inr (w @ out @ ''0'' @ CRLF @ CRLF)"
    by blast
  have "send_chunked S data w =
      Inr (w @ concat (map (\<lambda>c. format_X (length c) @ CRLF @ c @ CRLF) cs) @ ''0'' @ CRLF @ CRLF)"
    by (rule send_chunked_frames [OF cs(1)])
  moreover have "\<forall>c \<in> set cs. set (format_X (length c)) \<subseteq> set ''0123456789ABCDEF''
            \<and> hex_value (format_X (length c)) = length c
            \<and> hd (format_X (length c)) \<noteq> CHR ''0''"
    using cs(2) format_X_digits hex_value_format_X format_X_no_leading_zero by blast
  ultimately show ?thesis using cs(1) body by blast
qed

theorem chunk_framing_witness:
  "(1::nat) \<le> 16
   \<and> send_chunked 16 ''0123456789abcdefXYZ'' ''H'' =
       Inr (''H10'' @ CRLF @ ''0123456789abcdef'' @ CRLF @ ''3'' @ CRLF @ ''XYZ'' @ CRLF @ ''0'' @ CRLF @ CRLF)"
proof -
  have le: "(1::nat) \<le> 16" by simp
  have run: "chunks 16 ''0123456789abcdefXYZ'' = Inr [''0123456789abcdef'', ''XYZ'']"
    by (simp add: chunks_def py_range_def range_from.simps slice_def)
  have fmt: "format_X (length ''0123456789abcdef'') = ''10''" "format_X (length ''XYZ'') = ''3''"
    by code_simp+
  from chunk_framing [OF le, of "''0123456789abcdefXYZ''" "''H''"]
  obtain cs where cs: "chunks 16 ''0123456789abcdefXYZ'' = Inr cs"
    and out: "send_chunked 16 ''0123456789abcdefXYZ'' ''H'' =
      Inr (''H'' @ concat (map (\<lambda>c. format_X (length c) @ CRLF @ c @ CRLF) cs) @ ''0'' @ CRLF @ CRLF)"
    by blast
  from cs run have "cs = [''0123456789abcdef'', ''XYZ'']" by simp
  with out fmt show ?thesis by (simp del: list.size)
qed

section \<open>Properties of the request parser\<close>

lemma takeWhile_neq_append:
  "c \<notin> set p \<Longrightarrow> takeWhile (\<lambda>x. x \<noteq> c) (p @ s) = p @ takeWhile (\<lambda>x. x \<noteq> c) s"
  by (induction p) auto

lemma dropWhile_neq_append:
  "c \<notin> set p \<Longrightarrow> dropWhile (\<lambda>x. x \<noteq> c) (p @ s) = dropWhile (\<lambda>x. x \<noteq> c) s"
  by (induction p) auto

lemma readline_line: "LF \<notin> set l \<Longrightarrow> readline (l @ LF # s) = (l @ [LF], s)"
  by (simp add: readline_def Let_def takeWhile_neq_append)

lemma readline_prefix:
  "LF \<notin> set p \<Longrightarrow> readline (p @ s) = (p @ fst (readline s), snd (readline s))"
  by (simp add: readline_def Let_def takeWhile_neq_append)

lemma complete_lineE:
  assumes "complete_line l"
  obtains b where "l = b @ [LF]" "LF \<notin> set b"
  using assms unfolding complete_line_def
  by (metis append_butlast_last_id)

lemma readline_complete: "complete_line l \<Longrightarrow> readline (l @ s) = (l, s)"
  by (erule complete_lineE) (simp add: readline_line)

lemma split_max_length: "length (split_max sep n s) \<le> Suc n"
  by (induction n arbitrary: s) auto

lemma split_max_two:
  assumes "split_max sep 2 s = [a, b, c]"
  shows "s = a @ sep # b @ sep # c \<and> sep \<notin> set a \<and> sep \<notin> set b"
proof -
  have two: "(2::nat) = Suc (Suc 0)" by simp
  let ?P = "\<lambda>c. c \<noteq> sep"
  from assms have in1: "sep \<in> set s"
    unfolding two by (auto split: if_splits)
  define t where "t = drop 1 (dropWhile ?P s)"
  from assms in1 have a: "a = takeWhile ?P s" and rest: "split_max sep (Suc 0) t = [b, c]"
    unfolding two t_def by simp_all
  from rest have in2: "sep \<in> set t" by (auto split: if_splits)
  with rest have b: "b = takeWhile ?P t" and c: "c = drop 1 (dropWhile ?P t)" by simp_all
  have dw: "\<And>u. sep \<in> set u \<Longrightarrow> dropWhile ?P u = sep # drop 1 (dropWhile ?P u)"
  proof -
    fix u assume "sep \<in> set u"
    then have "dropWhile ?P u \<noteq> []" by (simp add: dropWhile_eq_Nil_conv) 
    moreover have "hd (dropWhile ?P u) = sep"
      using hd_dropWhile [OF calculation] by simp
    ultimately show "dropWhile ?P u = sep # drop 1 (dropWhile ?P u)"
      by (cases "dropWhile ?P u") simp_all
  qed
  have "s = takeWhile ?P s @ dropWhile ?P s" by simp
  also have "\<dots> = a @ sep # t" using dw [OF in1] a t_def by simp
  also have "t = takeWhile ?P t @ dropWhile ?P t" by simp
  also have "\<dots> = b @ sep # c" using dw [OF in2] b c by simp
  finally have "s = a @ sep # b @ sep # c" .
  moreover have "sep \<notin> set a" unfolding a by (auto dest: set_takeWhileD)
  moreover have "sep \<notin> set b" unfolding b by (auto dest: set_takeWhileD)
  ultimately show ?thesis by simp
qed

lemma unpack3_short: "length xs < 3 \<Longrightarrow> unpack3 xs = Inl ValueError_unpack"
  by (cases xs rule: unpack3.cases) auto

lemma length_three: "length xs = 3 \<Longrightarrow> \<exists>a b c. xs = [a, b, c]"
  by (auto simp: numeral_3_eq_3 length_Suc_conv)

subsection \<open>The request line\<close>

text \<open>
  C6. The request line is split at its first two spaces. With fewer than three tokens
  the tuple assignment raises (the specification's \<open>MalformedRequestLine\<close> is Python's
  \<open>ValueError\<close> here) and the connection handler stops with that exception. With three
  tokens the first is the method, the second the target, and all the rest of the line,
  its line terminator included, is the version.
\<close>

theorem request_line_tokens:
  assumes "decode_utf8 (fst (readline req)) = Inr reqline"
  shows "(length (split_max (CHR '' '') 2 reqline) < 3 \<longrightarrow>
            read_request alloc_max req = Inl ValueError_unpack
            \<and> handle_connection alloc_max req entries = (Inl ValueError_unpack, entries))
       \<and> (3 \<le> length (split_max (CHR '' '') 2 reqline) \<longrightarrow>
            (\<exists>m u v. split_max (CHR '' '') 2 reqline = [m, u, v]
               \<and> reqline = m @ CHR '' '' # u @ CHR '' '' # v
               \<and> CHR '' '' \<notin> set m \<and> CHR '' '' \<notin> set u
               \<and> (\<forall>r rest. read_request alloc_max req = Inr (r, rest) \<longrightarrow>
                     rq_method r = m \<and> rq_url r = u \<and> rq_version r = v)))"
proof (intro conjI impI)
  assume "length (split_max (CHR '' '') 2 reqline) < 3"
  then have "unpack3 (split_max (CHR '' '') 2 reqline) = Inl ValueError_unpack"
    by (rule unpack3_short)
  with assms show short: "read_request alloc_max req = Inl ValueError_unpack"
    by (simp add: read_request_def)
  then show "handle_connection alloc_max req entries = (Inl ValueError_unpack, entries)"
    by (simp add: handle_connection_def)
next
  assume "3 \<le> length (split_max (CHR '' '') 2 reqline)"
  moreover have "length (split_max (CHR '' '') 2 reqline) \<le> 3"
    using split_max_length [of "CHR '' ''" 2 reqline] by simp
  ultimately have "length (split_max (CHR '' '') 2 reqline) = 3" by simp
  then obtain m u v where toks: "split_max (CHR '' '') 2 reqline = [m, u, v]"
    using length_three by blast
  have shape: "reqline = m @ CHR '' '' # u @ CHR '' '' # v \<and> CHR '' '' \<notin> set m \<and> CHR '' '' \<notin> set u"
    by (rule split_max_two [OF toks])
  have "rq_method r = m \<and> rq_url r = u \<and> rq_version r = v"
    if "read_request alloc_max req = Inr (r, rest)" for r rest
    using that assms toks
    by (auto simp: read_request_def split: sum.splits if_splits prod.splits)
  with toks shape show "\<exists>m u v. split_max (CHR '' '') 2 reqline = [m, u, v]
               \<and> reqline = m @ CHR '' '' # u @ CHR '' '' # v
               \<and> CHR '' '' \<notin> set m \<and> CHR '' '' \<notin> set u
               \<and> (\<forall>r rest. read_request alloc_max req = Inr (r, rest) \<longrightarrow>
                     rq_method r = m \<and> rq_url r = u \<and> rq_version r = v)"
    by blast
qed

theorem request_line_tokens_witness:
  "decode_utf8 (fst (readline (''GET'' @ CRLF))) = Inr (''GET'' @ CRLF)
   \<and> length (split_max (CHR '' '') 2 (''GET'' @ CRLF)) < 3
   \<and> read_request 65536 (''GET'' @ CRLF) = Inl ValueError_unpack
   \<and> decode_utf8 (fst (readline (''GET / HTTP/1.0'' @ CRLF @ CRLF))) = Inr (''GET / HTTP/1.0'' @ CRLF)
   \<and> 3 \<le> length (split_max (CHR '' '') 2 (''GET / HTTP/1.0'' @ CRLF))
   \<and> read_request 65536 (''GET / HTTP/1.0'' @ CRLF @ CRLF) =
        Inr (\<lparr>rq_method = ''GET'', rq_url = ''/'', rq_version = ''HTTP/1.0'' @ CRLF,
              rq_headers = Map.empty, rq_body = None\<rparr>, [])"
proof -
  have d1: "decode_utf8 (fst (readline (''GET'' @ CRLF))) = Inr (''GET'' @ CRLF)"
    by (simp add: readline_def decode_utf8_def is_ascii_def)
  have l1: "length (split_max (CHR '' '') 2 (''GET'' @ CRLF)) < 3"
    by (simp add: numeral_2_eq_2)
  have r1: "read_request 65536 (''GET'' @ CRLF) = Inl ValueError_unpack"
    using request_line_tokens [OF d1, where alloc_max = 65536 and entries = "[]"] l1 by blast
  have d2: "decode_utf8 (fst (readline (''GET / HTTP/1.0'' @ CRLF @ CRLF))) = Inr (''GET / HTTP/1.0'' @ CRLF)"
    by (simp add: readline_def decode_utf8_def is_ascii_def)
  have l2: "3 \<le> length (split_max (CHR '' '') 2 (''GET / HTTP/1.0'' @ CRLF))"
    by (simp add: numeral_2_eq_2)
  have r2: "read_request 65536 (''GET / HTTP/1.0'' @ CRLF @ CRLF) =
        Inr (\<lparr>rq_method = ''GET'', rq_url = ''/'', rq_version = ''HTTP/1.0'' @ CRLF,
              rq_headers = Map.empty, rq_body = None\<rparr>, [])"
    by (simp add: read_request_def readline_def decode_utf8_def is_ascii_def numeral_2_eq_2
        read_headers.simps read_body_def)
  from d1 l1 r1 d2 l2 r2 show ?thesis by blast
qed

text \<open>
  C7. A method other than \<open>GET\<close> and \<open>POST\<close> fails the assertion of line 18 (the
  specification's \<open>UnsupportedMethod\<close> is Python's \<open>AssertionError\<close>); with \<open>GET\<close> or
  \<open>POST\<close> the parser goes on to the headers and the body.
\<close>

theorem method_assertion:
  assumes "decode_utf8 (fst (readline req)) = Inr reqline"
    and "split_max (CHR '' '') 2 reqline = [m, u, v]"
  shows "(m \<noteq> ''GET'' \<and> m \<noteq> ''POST'' \<longrightarrow>
            read_request alloc_max req = Inl AssertionError
            \<and> handle_connection alloc_max req entries = (Inl AssertionError, entries))
       \<and> (m = ''GET'' \<or> m = ''POST'' \<longrightarrow>
            read_request alloc_max req =
              (case read_headers (snd (readline req)) Map.empty of
                 Inl e \<Rightarrow> Inl e
               | Inr (hs, req') \<Rightarrow>
                   (case read_body alloc_max hs req' of
                      Inl e \<Rightarrow> Inl e
                    | Inr (body, req'') \<Rightarrow>
                        Inr (\<lparr>rq_method = m, rq_url = u, rq_version = v,
                              rq_headers = hs, rq_body = body\<rparr>, req''))))"
  using assms by (auto simp: read_request_def handle_connection_def)

theorem method_assertion_witness:
  "decode_utf8 (fst (readline (''PUT / HTTP/1.0'' @ CRLF @ CRLF))) = Inr (''PUT / HTTP/1.0'' @ CRLF)
   \<and> split_max (CHR '' '') 2 (''PUT / HTTP/1.0'' @ CRLF) = [''PUT'', ''/'', ''HTTP/1.0'' @ CRLF]
   \<and> read_request 65536 (''PUT / HTTP/1.0'' @ CRLF @ CRLF) = Inl AssertionError
   \<and> handle_connection 65536 (''PUT / HTTP/1.0'' @ CRLF @ CRLF) ENTRIES_initial = (Inl AssertionError, ENTRIES_initial)
   \<and> decode_utf8 (fst (readline (''POST / HTTP/1.0'' @ CRLF @ CRLF))) = Inr (''POST / HTTP/1.0'' @ CRLF)
   \<and> split_max (CHR '' '') 2 (''POST / HTTP/1.0'' @ CRLF) = [''POST'', ''/'', ''HTTP/1.0'' @ CRLF]
   \<and> read_request 65536 (''POST / HTTP/1.0'' @ CRLF @ CRLF) =
        Inr (\<lparr>rq_method = ''POST'', rq_url = ''/'', rq_version = ''HTTP/1.0'' @ CRLF,
              rq_headers = Map.empty, rq_body = None\<rparr>, [])"
proof -
  have d1: "decode_utf8 (fst (readline (''PUT / HTTP/1.0'' @ CRLF @ CRLF))) = Inr (''PUT / HTTP/1.0'' @ CRLF)"
    by (simp add: readline_def decode_utf8_def is_ascii_def)
  have s1: "split_max (CHR '' '') 2 (''PUT / HTTP/1.0'' @ CRLF) = [''PUT'', ''/'', ''HTTP/1.0'' @ CRLF]"
    by (simp add: numeral_2_eq_2)
  have r1: "read_request 65536 (''PUT / HTTP/1.0'' @ CRLF @ CRLF) = Inl AssertionError
      \<and> handle_connection 65536 (''PUT / HTTP/1.0'' @ CRLF @ CRLF) ENTRIES_initial = (Inl AssertionError, ENTRIES_initial)"
    using method_assertion [OF d1 s1, where alloc_max = 65536 and entries = ENTRIES_initial] by simp
  have d2: "decode_utf8 (fst (readline (''POST / HTTP/1.0'' @ CRLF @ CRLF))) = Inr (''POST / HTTP/1.0'' @ CRLF)"
    by (simp add: readline_def decode_utf8_def is_ascii_def)
  have s2: "split_max (CHR '' '') 2 (''POST / HTTP/1.0'' @ CRLF) = [''POST'', ''/'', ''HTTP/1.0'' @ CRLF]"
    by (simp add: numeral_2_eq_2)
  have r2: "read_request 65536 (''POST / HTTP/1.0'' @ CRLF @ CRLF) =
        Inr (\<lparr>rq_method = ''POST'', rq_url = ''/'', rq_version = ''HTTP/1.0'' @ CRLF,
              rq_headers = Map.empty, rq_body = None\<rparr>, [])"
    using method_assertion [OF d2 s2, where alloc_max = 65536 and entries = "[]"]
    by (simp add: readline_def read_headers.simps decode_utf8_def is_ascii_def read_body_def)
  from d1 s1 r1 d2 s2 r2 show ?thesis by blast
qed

subsection \<open>The header loop\<close>

lemma is_space_LF: "is_space LF"
  by (simp add: is_space_def)

lemma strip_snoc_space: "is_space c \<Longrightarrow> strip (v @ [c]) = strip v"
proof (cases "\<forall>x \<in> set v. is_space x")
  case True
  assume c: "is_space c"
  from True have a: "dropWhile is_space v = []" by simp
  from True c have b: "dropWhile is_space (v @ [c]) = []" by simp
  show ?thesis unfolding strip_def a b by (rule refl)
next
  case False
  assume c: "is_space c"
  from False obtain x where "x \<in> set v" "\<not> is_space x" by blast
  then have "dropWhile is_space (v @ [c]) = dropWhile is_space v @ [c]"
    by (rule dropWhile_append1)
  with c show ?thesis by (simp add: strip_def)
qed

lemma header_line_not_CRLF: "n @ CHR '':'' # x \<noteq> CRLF"
  by (cases n; cases "tl n"; cases "tl (tl n)") auto

lemma split_header: "CHR '':'' \<notin> set n \<Longrightarrow> split_max (CHR '':'') 1 (n @ CHR '':'' # x) = [n, x]"
  by (simp add: takeWhile_neq_append dropWhile_neq_append)

lemma read_headers_blank: "read_headers (CRLF @ rest) hs = Inr (hs, rest)"
  by (subst read_headers.simps) (simp add: readline_def decode_utf8_def is_ascii_def)

lemma is_ascii_colon_LF: "is_ascii (CHR '':'')" "is_ascii LF"
  by (simp_all add: is_ascii_def)

lemma read_headers_line:
  assumes "header_line_ok nv"
  shows "read_headers (header_line nv @ s) hs = read_headers s (hs(casefold (fst nv) \<mapsto> strip (snd nv)))"
proof -
  obtain n v where nv: "nv = (n, v)" by (cases nv)
  from assms have ok: "CHR '':'' \<notin> set n" "LF \<notin> set n" "LF \<notin> set v"
      "list_all is_ascii n" "list_all is_ascii v"
    by (simp_all add: header_line_ok_def nv)
  have "LF \<notin> set (n @ CHR '':'' # v)" using ok by simp
  then have rl: "readline ((n @ CHR '':'' # v) @ LF # s) = ((n @ CHR '':'' # v) @ [LF], s)"
    by (rule readline_line)
  have dec: "decode_utf8 (n @ CHR '':'' # v @ [LF]) = Inr (n @ CHR '':'' # v @ [LF])"
    using ok by (simp add: decode_utf8_def is_ascii_colon_LF)
  have sp: "split_max (CHR '':'') 1 (n @ CHR '':'' # v @ [LF]) = [n, v @ [LF]]"
    using ok(1) by (rule split_header)
  have "read_headers (n @ CHR '':'' # v @ LF # s) hs
      = read_headers s (hs(casefold n \<mapsto> strip (v @ [LF])))"
    using rl dec sp header_line_not_CRLF [of n "v @ [LF]"]
    by (subst read_headers.simps) simp
  then show ?thesis
    by (simp add: nv header_line_def strip_snoc_space is_space_LF)
qed

lemma read_headers_lines:
  "list_all header_line_ok ls \<Longrightarrow>
     read_headers (concat (map header_line ls) @ CRLF @ rest) hs =
       Inr (fold (\<lambda>nv m. m(casefold (fst nv) \<mapsto> strip (snd nv))) ls hs, rest)"
proof (induction ls arbitrary: hs)
  case Nil
  show ?case using read_headers_blank [of rest hs] by simp
next
  case (Cons nv ls)
  then have ok: "header_line_ok nv" and oks: "list_all header_line_ok ls" by simp_all
  have "read_headers (concat (map header_line (nv # ls)) @ CRLF @ rest) hs
      = read_headers (header_line nv @ (concat (map header_line ls) @ CRLF @ rest)) hs"
    by simp
  also have "\<dots> = read_headers (concat (map header_line ls) @ CRLF @ rest)
      (hs(casefold (fst nv) \<mapsto> strip (snd nv)))"
    by (rule read_headers_line [OF ok])
  also have "\<dots> = Inr (fold (\<lambda>nv m. m(casefold (fst nv) \<mapsto> strip (snd nv))) ls
      (hs(casefold (fst nv) \<mapsto> strip (snd nv))), rest)"
    by (rule Cons.IH [OF oks])
  finally show ?case by (simp only: fold_simps)
qed

lemma fold_headers_untouched:
  "\<forall>nv \<in> set ls. casefold (fst nv) \<noteq> k \<Longrightarrow>
     fold (\<lambda>nv m. m(casefold (fst nv) \<mapsto> strip (snd nv))) ls hs k = hs k"
  by (induction ls arbitrary: hs) auto

lemma fold_headers_last:
  assumes "\<forall>nv \<in> set post. casefold (fst nv) \<noteq> casefold n"
  shows "fold (\<lambda>nv m. m(casefold (fst nv) \<mapsto> strip (snd nv))) (pre @ (n, v) # post) hs (casefold n)
      = Some (strip v)"
  using fold_headers_untouched [OF assms] by simp

text \<open>
  C3, amended. When the header section holds two lines whose names are equal after
  case-folding, the parsed header map binds that name to the value of the last such
  line: the loop assigns \<open>headers[header.casefold()]\<close> for every line, so each line
  replaces the binding an earlier one made. Nothing is merged. The map is the one a
  successfully parsed request carries.
\<close>

theorem last_header_wins:
  assumes "list_all header_line_ok ls"
    and "ls = a @ (n1, v1) # b @ (n2, v2) # c"
    and "casefold n1 = casefold n2"
    and "\<forall>nv \<in> set c. casefold (fst nv) \<noteq> casefold n2"
  shows "\<exists>hs. read_headers (concat (map header_line ls) @ CRLF @ rest) Map.empty = Inr (hs, rest)
           \<and> hs (casefold n1) = Some (strip v2)
           \<and> (\<forall>rl r rest'. complete_line rl
                 \<and> read_request alloc_max (rl @ concat (map header_line ls) @ CRLF @ rest) = Inr (r, rest') \<longrightarrow>
               rq_headers r = hs)"
proof -
  let ?hs = "fold (\<lambda>nv m. m(casefold (fst nv) \<mapsto> strip (snd nv))) ls Map.empty"
  let ?s = "concat (map header_line ls) @ CRLF @ rest"
  have run: "read_headers ?s Map.empty = Inr (?hs, rest)"
    by (rule read_headers_lines [OF assms(1)])
  have last: "?hs (casefold n1) = Some (strip v2)"
    using fold_headers_last [OF assms(4), of "a @ (n1, v1) # b" v2 Map.empty] assms(2,3)
    by simp
  have "rq_headers r = ?hs"
    if "complete_line rl" and "read_request alloc_max (rl @ ?s) = Inr (r, rest')" for rl r rest'
    using that(2) run
    by (auto simp: read_request_def readline_complete [OF that(1)]
        split: sum.splits prod.splits if_splits)
  with run last show ?thesis by blast
qed

theorem last_header_wins_witness:
  "list_all header_line_ok [(''A'', '' 1'' @ [CR]), (''a'', '' 2'' @ [CR])]
   \<and> casefold ''A'' = casefold ''a''
   \<and> concat (map header_line [(''A'', '' 1'' @ [CR]), (''a'', '' 2'' @ [CR])]) @ CRLF
        = ''A: 1'' @ CRLF @ ''a: 2'' @ CRLF @ CRLF
   \<and> complete_line (''GET / HTTP/1.0'' @ CRLF)
   \<and> (\<exists>hs r. read_headers (''A: 1'' @ CRLF @ ''a: 2'' @ CRLF @ CRLF) Map.empty = Inr (hs, [])
          \<and> hs ''a'' = Some ''2''
          \<and> read_request 65536 (''GET / HTTP/1.0'' @ CRLF @ ''A: 1'' @ CRLF @ ''a: 2'' @ CRLF @ CRLF)
               = Inr (r, [])
          \<and> rq_headers r = hs)"
proof -
  let ?ls = "[(''A'', '' 1'' @ [CR]), (''a'', '' 2'' @ [CR])]"
  have ok: "list_all header_line_ok ?ls"
    by (simp add: header_line_ok_def is_ascii_def)
  have shape: "?ls = [] @ (''A'', '' 1'' @ [CR]) # [] @ (''a'', '' 2'' @ [CR]) # []" by simp
  have cf: "casefold ''A'' = casefold ''a''" "casefold ''A'' = ''a''" "casefold ''a'' = ''a''"
    by code_simp+
  have none: "\<forall>nv \<in> set ([] :: (string \<times> string) list). casefold (fst nv) \<noteq> casefold ''a''"
    by simp
  have st: "strip ('' 2'' @ [CR]) = ''2''"
    by (simp add: strip_def is_space_def)
  have cat: "concat (map header_line ?ls) @ CRLF @ [] = ''A: 1'' @ CRLF @ ''a: 2'' @ CRLF @ CRLF"
    by (simp add: header_line_def)
  have rl: "complete_line (''GET / HTTP/1.0'' @ CRLF)"
    by (simp add: complete_line_def)
  have "\<exists>r. read_request 65536 (''GET / HTTP/1.0'' @ CRLF @ ''A: 1'' @ CRLF @ ''a: 2'' @ CRLF @ CRLF)
      = Inr (r, [])"
    by (simp add: read_request_def readline_def decode_utf8_def is_ascii_def numeral_2_eq_2
        read_headers.simps read_body_def cf strip_def is_space_def)
  then obtain r where parsed:
    "read_request 65536 ((''GET / HTTP/1.0'' @ CRLF) @ ''A: 1'' @ CRLF @ ''a: 2'' @ CRLF @ CRLF) = Inr (r, [])"
    by auto
  from last_header_wins [OF ok shape cf(1) none, where rest = "[]" and alloc_max = 65536]
  obtain hs where run: "read_headers (concat (map header_line ?ls) @ CRLF @ []) Map.empty = Inr (hs, [])"
    and bound: "hs (casefold ''A'') = Some (strip ('' 2'' @ [CR]))"
    and carried: "\<forall>rl r rest'. complete_line rl
        \<and> read_request 65536 (rl @ concat (map header_line ?ls) @ CRLF @ []) = Inr (r, rest') \<longrightarrow>
        rq_headers r = hs"
    by blast
  from run have a: "read_headers (''A: 1'' @ CRLF @ ''a: 2'' @ CRLF @ CRLF) Map.empty = Inr (hs, [])"
    unfolding cat .
  from bound have b: "hs ''a'' = Some ''2''"
    unfolding cf(2) st .
  from carried rl parsed have c: "rq_headers r = hs"
    unfolding cat by blast
  from parsed have d:
    "read_request 65536 (''GET / HTTP/1.0'' @ CRLF @ ''A: 1'' @ CRLF @ ''a: 2'' @ CRLF @ CRLF) = Inr (r, [])"
    by simp
  from a b c d have "\<exists>hs r. read_headers (''A: 1'' @ CRLF @ ''a: 2'' @ CRLF @ CRLF) Map.empty = Inr (hs, [])
          \<and> hs ''a'' = Some ''2''
          \<and> read_request 65536 (''GET / HTTP/1.0'' @ CRLF @ ''A: 1'' @ CRLF @ ''a: 2'' @ CRLF @ CRLF)
               = Inr (r, [])
          \<and> rq_headers r = hs"
    by blast
  with ok cf(1) cat rl show ?thesis by simp
qed

text \<open>
  The claim as it was made fails on a request with the header lines \<open>A: 1\<close> and \<open>a: 2\<close>:
  the parsed map binds \<open>a\<close> to \<open>2\<close>, the value of the second line.
\<close>

theorem first_header_wins_counterexample:
  "read_request 65536 (''GET / HTTP/1.0'' @ CRLF @ ''A: 1'' @ CRLF @ ''a: 2'' @ CRLF @ CRLF) =
     Inr (\<lparr>rq_method = ''GET'', rq_url = ''/'', rq_version = ''HTTP/1.0'' @ CRLF,
           rq_headers = [''a'' \<mapsto> ''2''], rq_body = None\<rparr>, [])
   \<and> casefold ''A'' = casefold ''a''
   \<and> [''a'' \<mapsto> ''2''] ''a'' \<noteq> Some ''1''"
proof -
  have cf: "casefold ''A'' = ''a''" "casefold ''a'' = ''a''"
    by code_simp+
  show ?thesis
    by (simp add: read_request_def readline_def decode_utf8_def is_ascii_def numeral_2_eq_2
        read_headers.simps read_body_def cf strip_def is_space_def)
qed

subsection \<open>The body\<close>

text \<open>
  C4, amended. Take a request with a header \<open>content-length: N\<close> where \<open>0 \<le> N\<close>, where a
  byte string of \<open>N\<close> bytes can be allocated (\<open>N \<le> 2^63 - 34\<close> and \<open>N \<le> alloc_max\<close>), and
  where the first \<open>min N (bytes left)\<close> bytes after the blank line are ASCII text. Then the
  parser returns, the body is just these bytes and the rest of the stream is left
  unread: the body has exactly \<open>N\<close> bytes when that many arrive, and all the bytes that
  arrived when the stream closes earlier. No truncation is detected: \<open>read(N)\<close> gives
  what is left of a stream that ends early, and nothing in \<open>handle_connection\<close> compares
  the length read with \<open>N\<close>.
\<close>

theorem body_is_first_bytes:
  assumes "decode_utf8 (fst (readline req)) = Inr reqline"
    and "split_max (CHR '' '') 2 reqline = [m, u, ver]"
    and "m = ''GET'' \<or> m = ''POST''"
    and "read_headers (snd (readline req)) Map.empty = Inr (hs, after)"
    and "hs ''content-length'' = Some v"
    and "py_int v = Inr N"
    and "0 \<le> N"
    and "N \<le> 2 ^ 63 - 34"
    and "nat N \<le> alloc_max"
    and "list_all is_ascii (take (nat N) after)"
  shows "read_request alloc_max req =
           Inr (\<lparr>rq_method = m, rq_url = u, rq_version = ver, rq_headers = hs,
                 rq_body = Some (take (nat N) after)\<rparr>, drop (nat N) after)
       \<and> length (take (nat N) after) = min (nat N) (length after)
       \<and> (nat N \<le> length after \<longrightarrow> length (take (nat N) after) = nat N)
       \<and> (length after < nat N \<longrightarrow> take (nat N) after = after \<and> drop (nat N) after = [])"
proof -
  have "read alloc_max N after = Inr (take (nat N) after, drop (nat N) after)"
    using assms(7-9) by (simp add: read_def)
  then have "read_body alloc_max hs after = Inr (Some (take (nat N) after), drop (nat N) after)"
    using assms(5,6,10) by (simp add: read_body_def decode_utf8_def)
  with assms(1-4) have "read_request alloc_max req =
           Inr (\<lparr>rq_method = m, rq_url = u, rq_version = ver, rq_headers = hs,
                 rq_body = Some (take (nat N) after)\<rparr>, drop (nat N) after)"
    by (auto simp: read_request_def)
  then show ?thesis by simp
qed

theorem body_is_first_bytes_witness:
  "decode_utf8 (fst (readline (''POST /add HTTP/1.0'' @ CRLF @ ''content-length: 5'' @ CRLF @ CRLF @ ''guestEXTRA'')))
      = Inr (''POST /add HTTP/1.0'' @ CRLF)
   \<and> split_max (CHR '' '') 2 (''POST /add HTTP/1.0'' @ CRLF) = [''POST'', ''/add'', ''HTTP/1.0'' @ CRLF]
   \<and> read_headers (snd (readline (''POST /add HTTP/1.0'' @ CRLF @ ''content-length: 5'' @ CRLF @ CRLF @ ''guestEXTRA''))) Map.empty
      = Inr ([''content-length'' \<mapsto> ''5''], ''guestEXTRA'')
   \<and> py_int ''5'' = Inr 5
   \<and> (5::int) \<le> 2 ^ 63 - 34 \<and> nat 5 \<le> (65536::nat)
   \<and> list_all is_ascii (take (nat 5) ''guestEXTRA'')
   \<and> read_request 65536 (''POST /add HTTP/1.0'' @ CRLF @ ''content-length: 5'' @ CRLF @ CRLF @ ''guestEXTRA'') =
       Inr (\<lparr>rq_method = ''POST'', rq_url = ''/add'', rq_version = ''HTTP/1.0'' @ CRLF,
             rq_headers = [''content-length'' \<mapsto> ''5''], rq_body = Some ''guest''\<rparr>, ''EXTRA'')
   \<and> py_int ''11'' = Inr 11
   \<and> (11::int) \<le> 2 ^ 63 - 34 \<and> nat 11 \<le> (65536::nat)
   \<and> list_all is_ascii (take (nat 11) ''guest'')
   \<and> read_request 65536 (''POST /add HTTP/1.0'' @ CRLF @ ''content-length: 11'' @ CRLF @ CRLF @ ''guest'') =
       Inr (\<lparr>rq_method = ''POST'', rq_url = ''/add'', rq_version = ''HTTP/1.0'' @ CRLF,
             rq_headers = [''content-length'' \<mapsto> ''11''], rq_body = Some ''guest''\<rparr>, [])"
proof -
  let ?req = "''POST /add HTTP/1.0'' @ CRLF @ ''content-length: 5'' @ CRLF @ CRLF @ ''guestEXTRA''"
  let ?cut = "''POST /add HTTP/1.0'' @ CRLF @ ''content-length: 11'' @ CRLF @ CRLF @ ''guest''"
  have cf: "casefold ''content-length'' = ''content-length''"
    by code_simp
  have st: "strip ('' 5'' @ CRLF) = ''5''" "strip ('' 11'' @ CRLF) = ''11''"
    by code_simp+
  have d: "decode_utf8 (fst (readline ?req)) = Inr (''POST /add HTTP/1.0'' @ CRLF)"
    by (simp add: readline_def decode_utf8_def is_ascii_def)
  have d': "decode_utf8 (fst (readline ?cut)) = Inr (''POST /add HTTP/1.0'' @ CRLF)"
    by (simp add: readline_def decode_utf8_def is_ascii_def)
  have s: "split_max (CHR '' '') 2 (''POST /add HTTP/1.0'' @ CRLF) = [''POST'', ''/add'', ''HTTP/1.0'' @ CRLF]"
    by (simp add: numeral_2_eq_2)
  have m: "''POST'' = ''GET'' \<or> ''POST'' = ''POST''" by simp
  have h: "read_headers (snd (readline ?req)) Map.empty
      = Inr ([''content-length'' \<mapsto> ''5''], ''guestEXTRA'')"
    using st by (simp add: read_headers.simps readline_def decode_utf8_def is_ascii_def cf)
  have h': "read_headers (snd (readline ?cut)) Map.empty
      = Inr ([''content-length'' \<mapsto> ''11''], ''guest'')"
    using st by (simp add: read_headers.simps readline_def decode_utf8_def is_ascii_def cf)
  have b: "[''content-length'' \<mapsto> ''5''] ''content-length'' = Some ''5''" by simp
  have b': "[''content-length'' \<mapsto> ''11''] ''content-length'' = Some ''11''" by simp
  have n: "py_int ''5'' = Inr 5" by code_simp
  have n': "py_int ''11'' = Inr 11" by code_simp
  have pos: "(0::int) \<le> 5" and pos': "(0::int) \<le> 11" by simp_all
  have idx: "(5::int) \<le> 2 ^ 63 - 34" and idx': "(11::int) \<le> 2 ^ 63 - 34" by simp_all
  have mem: "nat 5 \<le> (65536::nat)" and mem': "nat 11 \<le> (65536::nat)" by simp_all
  have a: "list_all is_ascii (take (nat 5) ''guestEXTRA'')"
    by (simp add: is_ascii_def)
  have a': "list_all is_ascii (take (nat 11) ''guest'')"
    by (simp add: is_ascii_def)
  have t: "take (nat 5) ''guestEXTRA'' = ''guest''" "drop (nat 5) ''guestEXTRA'' = ''EXTRA''"
    by simp_all
  have t': "take (nat 11) ''guest'' = ''guest''" "drop (nat 11) ''guest'' = []"
    by simp_all
  have full: "read_request 65536 ?req =
       Inr (\<lparr>rq_method = ''POST'', rq_url = ''/add'', rq_version = ''HTTP/1.0'' @ CRLF,
             rq_headers = [''content-length'' \<mapsto> ''5''], rq_body = Some ''guest''\<rparr>, ''EXTRA'')"
    using body_is_first_bytes [OF d s m h b n pos idx mem a] unfolding t by blast
  have short: "read_request 65536 ?cut =
       Inr (\<lparr>rq_method = ''POST'', rq_url = ''/add'', rq_version = ''HTTP/1.0'' @ CRLF,
             rq_headers = [''content-length'' \<mapsto> ''11''], rq_body = Some ''guest''\<rparr>, [])"
    using body_is_first_bytes [OF d' s m h' b' n' pos' idx' mem' a'] unfolding t' by blast
  from d s h n idx mem a full n' idx' mem' a' short show ?thesis by blast
qed

text \<open>
  The claim as it was made fails on a request that declares 11 body bytes and closes
  after 5: the parser returns the 5 bytes as the body.
\<close>

theorem body_truncated_counterexample:
  "read_request 65536 (''POST /add HTTP/1.0'' @ CRLF @ ''content-length: 11'' @ CRLF @ CRLF @ ''guest'') =
     Inr (\<lparr>rq_method = ''POST'', rq_url = ''/add'', rq_version = ''HTTP/1.0'' @ CRLF,
           rq_headers = [''content-length'' \<mapsto> ''11''], rq_body = Some ''guest''\<rparr>, [])
   \<and> length ''guest'' \<noteq> 11"
proof -
  have cf: "casefold ''content-length'' = ''content-length''"
    by code_simp
  have n: "py_int ''11'' = Inr 11"
    by code_simp
  have st: "strip ('' 11'' @ CRLF) = ''11''"
    by code_simp
  have "read_headers (''content-length: 11'' @ CRLF @ CRLF @ ''guest'') Map.empty
      = Inr ([''content-length'' \<mapsto> ''11''], ''guest'')"
    using st by (simp add: read_headers.simps readline_def decode_utf8_def is_ascii_def cf)
  then show ?thesis
    by (simp add: read_request_def readline_def decode_utf8_def is_ascii_def numeral_2_eq_2
        read_body_def n read_def)
qed

subsection \<open>Letter case of header names\<close>

lemma same_letter_cases:
  assumes "same_letter a b"
  shows "a = b \<or> (65 \<le> (of_char a :: nat) \<and> (of_char a :: nat) \<le> 90 \<and> b = char_of ((of_char a :: nat) + 32)
                  \<and> 97 \<le> (of_char b :: nat) \<and> (of_char b :: nat) \<le> 122)
             \<or> (65 \<le> (of_char b :: nat) \<and> (of_char b :: nat) \<le> 90 \<and> a = char_of ((of_char b :: nat) + 32)
                  \<and> 97 \<le> (of_char a :: nat) \<and> (of_char a :: nat) \<le> 122)"
proof -
  have inj: "y = char_of x" if "(of_char y :: nat) = x" for x y
    using that by (metis char_of_char)
  from assms show ?thesis
    unfolding same_letter_def by (auto dest: inj)
qed

lemma same_letter_casefold: "same_letter a b \<Longrightarrow> casefold_char a = casefold_char b"
  by (drule same_letter_cases) (auto simp: casefold_char_def Let_def)

lemma same_letter_ascii: "same_letter a b \<Longrightarrow> is_ascii a = is_ascii b"
  by (drule same_letter_cases) (auto simp: is_ascii_def)

lemma same_letter_colon: "same_letter a b \<Longrightarrow> (a = CHR '':'') = (b = CHR '':'')"
  by (drule same_letter_cases) auto

lemma same_letter_LF: "same_letter a b \<Longrightarrow> (a = LF) = (b = LF)"
  by (drule same_letter_cases) auto

lemma differ_casefold: "differ_in_case_only s t \<Longrightarrow> casefold s = casefold t"
  unfolding differ_in_case_only_def casefold_def
  by (induction rule: list_all2_induct) (simp_all add: same_letter_casefold)

lemma differ_ascii: "differ_in_case_only s t \<Longrightarrow> list_all is_ascii s = list_all is_ascii t"
  unfolding differ_in_case_only_def
  by (induction rule: list_all2_induct) (simp_all add: same_letter_ascii)

lemma differ_colon: "differ_in_case_only s t \<Longrightarrow> (CHR '':'' \<in> set s) = (CHR '':'' \<in> set t)"
  unfolding differ_in_case_only_def
  by (induction rule: list_all2_induct) (auto dest: same_letter_colon)

lemma differ_LF: "differ_in_case_only s t \<Longrightarrow> (LF \<in> set s) = (LF \<in> set t)"
  unfolding differ_in_case_only_def
  by (induction rule: list_all2_induct) (auto dest: same_letter_LF)

lemma read_headers_named:
  assumes "CHR '':'' \<notin> set n" and "LF \<notin> set n"
  shows "read_headers (n @ CHR '':'' # rest) hs =
     (if list_all is_ascii (n @ CHR '':'' # fst (readline rest))
      then read_headers (snd (readline rest)) (hs(casefold n \<mapsto> strip (fst (readline rest))))
      else Inl OutOfScope)"
proof -
  have "LF \<notin> set (n @ [CHR '':''])" using assms(2) by simp
  then have rl: "readline ((n @ [CHR '':'']) @ rest)
      = ((n @ [CHR '':'']) @ fst (readline rest), snd (readline rest))"
    by (rule readline_prefix)
  have sp: "split_max (CHR '':'') 1 (n @ CHR '':'' # fst (readline rest)) = [n, fst (readline rest)]"
    using assms(1) by (rule split_header)
  show ?thesis
    using rl sp header_line_not_CRLF [of n "fst (readline rest)"]
    by (subst read_headers.simps) (simp add: decode_utf8_def)
qed

lemma read_headers_name_case:
  assumes "differ_in_case_only n1 n2" and "CHR '':'' \<notin> set n1" and "LF \<notin> set n1"
  shows "read_headers (n1 @ CHR '':'' # rest) hs = read_headers (n2 @ CHR '':'' # rest) hs"
proof -
  have c2: "CHR '':'' \<notin> set n2" using differ_colon [OF assms(1)] assms(2) by simp
  have l2: "LF \<notin> set n2" using differ_LF [OF assms(1)] assms(3) by simp
  show ?thesis
    unfolding read_headers_named [OF assms(2,3)] read_headers_named [OF c2 l2]
    using differ_casefold [OF assms(1)] differ_ascii [OF assms(1)] by simp
qed

lemma read_headers_complete:
  assumes "complete_line l"
  shows "read_headers (l @ s) hs =
     (case decode_utf8 l of
        Inl e \<Rightarrow> Inl e
      | Inr line \<Rightarrow>
          if line = CRLF then Inr (hs, s)
          else (case unpack2 (split_max (CHR '':'') 1 line) of
                  Inl e \<Rightarrow> Inl e
                | Inr (header, val) \<Rightarrow> read_headers s (hs(casefold header \<mapsto> strip val))))"
  by (subst read_headers.simps) (simp add: readline_complete [OF assms] split: sum.splits)

lemma read_headers_skip_line:
  assumes "complete_line l" and "l \<noteq> CRLF" and "\<And>hs. read_headers s1 hs = read_headers s2 hs"
  shows "read_headers (l @ s1) hs = read_headers (l @ s2) hs"
  unfolding read_headers_complete [OF assms(1)] using assms(2,3)
  by (auto simp: decode_utf8_def split: sum.splits)

lemma read_headers_skip_lines:
  assumes "list_all complete_line ls" and "CRLF \<notin> set ls"
    and "\<And>hs. read_headers s1 hs = read_headers s2 hs"
  shows "read_headers (concat ls @ s1) hs = read_headers (concat ls @ s2) hs"
  using assms(1,2)
proof (induction ls arbitrary: hs)
  case Nil
  show ?case using assms(3) by simp
next
  case (Cons l ls)
  then have l: "complete_line l" "l \<noteq> CRLF"
    and ih: "\<And>hs. read_headers (concat ls @ s1) hs = read_headers (concat ls @ s2) hs"
    by auto
  show ?case
    using read_headers_skip_line [OF l ih] by simp
qed

lemma read_request_complete:
  assumes "complete_line rl" and "read_headers s1 Map.empty = read_headers s2 Map.empty"
  shows "read_request alloc_max (rl @ s1) = read_request alloc_max (rl @ s2)"
  using assms(2)
  by (simp add: read_request_def readline_complete [OF assms(1)] split: sum.splits prod.splits)

text \<open>
  C8. Two requests that differ only in the letter case of one header name parse alike:
  the same result of \<open>read_request\<close> (headers, body, rest of the stream, or the same
  exception) and the same run of \<open>handle_connection\<close>. The reason is the second conjunct:
  a header line binds the case-folded name to the stripped value.
\<close>

theorem header_name_case_insensitive:
  assumes "differ_in_case_only n1 n2"
    and "CHR '':'' \<notin> set n1" and "LF \<notin> set n1"
    and "complete_line rl" and "list_all complete_line ls" and "CRLF \<notin> set ls"
  shows "read_request alloc_max (rl @ concat ls @ n1 @ '':'' @ rest)
           = read_request alloc_max (rl @ concat ls @ n2 @ '':'' @ rest)
       \<and> (\<forall>nv s hs. header_line_ok nv \<longrightarrow>
             read_headers (header_line nv @ s) hs
               = read_headers s (hs(casefold (fst nv) \<mapsto> strip (snd nv))))
       \<and> casefold n1 = casefold n2
       \<and> handle_connection alloc_max (rl @ concat ls @ n1 @ '':'' @ rest) entries
           = handle_connection alloc_max (rl @ concat ls @ n2 @ '':'' @ rest) entries"
proof -
  have one: "read_headers (n1 @ '':'' @ rest) hs = read_headers (n2 @ '':'' @ rest) hs" for hs
    using read_headers_name_case [OF assms(1-3)] by simp
  have "read_headers (concat ls @ n1 @ '':'' @ rest) Map.empty
      = read_headers (concat ls @ n2 @ '':'' @ rest) Map.empty"
    by (rule read_headers_skip_lines [OF assms(5,6) one])
  then have req: "read_request alloc_max (rl @ concat ls @ n1 @ '':'' @ rest)
           = read_request alloc_max (rl @ concat ls @ n2 @ '':'' @ rest)"
    by (rule read_request_complete [OF assms(4)])
  then have "handle_connection alloc_max (rl @ concat ls @ n1 @ '':'' @ rest) entries
           = handle_connection alloc_max (rl @ concat ls @ n2 @ '':'' @ rest) entries"
    by (simp add: handle_connection_def)
  with req read_headers_line differ_casefold [OF assms(1)] show ?thesis by blast
qed

theorem header_name_case_insensitive_witness:
  "differ_in_case_only ''Content-Length'' ''content-length''
   \<and> CHR '':'' \<notin> set ''Content-Length'' \<and> LF \<notin> set ''Content-Length''
   \<and> complete_line (''POST /add HTTP/1.0'' @ CRLF)
   \<and> list_all complete_line [''Host: x'' @ CRLF] \<and> CRLF \<notin> set [''Host: x'' @ CRLF]
   \<and> read_request 65536 (''POST /add HTTP/1.0'' @ CRLF @ ''Host: x'' @ CRLF
                      @ ''content-length: 5'' @ CRLF @ CRLF @ ''guestEXTRA'') =
       Inr (\<lparr>rq_method = ''POST'', rq_url = ''/add'', rq_version = ''HTTP/1.0'' @ CRLF,
             rq_headers = [''host'' \<mapsto> ''x'', ''content-length'' \<mapsto> ''5''],
             rq_body = Some ''guest''\<rparr>, ''EXTRA'')
   \<and> read_request 65536 (''POST /add HTTP/1.0'' @ CRLF @ ''Host: x'' @ CRLF
                      @ ''Content-Length: 5'' @ CRLF @ CRLF @ ''guestEXTRA'') =
       Inr (\<lparr>rq_method = ''POST'', rq_url = ''/add'', rq_version = ''HTTP/1.0'' @ CRLF,
             rq_headers = [''host'' \<mapsto> ''x'', ''content-length'' \<mapsto> ''5''],
             rq_body = Some ''guest''\<rparr>, ''EXTRA'')"
proof -
  have d: "differ_in_case_only ''Content-Length'' ''content-length''"
    by (simp add: differ_in_case_only_def same_letter_def)
  have c: "CHR '':'' \<notin> set ''Content-Length''" and l: "LF \<notin> set ''Content-Length''"
    by simp_all
  have rl: "complete_line (''POST /add HTTP/1.0'' @ CRLF)"
    by (simp add: complete_line_def)
  have ls: "list_all complete_line [''Host: x'' @ CRLF]" "CRLF \<notin> set [''Host: x'' @ CRLF]"
    by (simp_all add: complete_line_def)
  have cf: "casefold ''content-length'' = ''content-length''" "casefold ''Host'' = ''host''"
    by code_simp+
  have st: "strip ('' 5'' @ CRLF) = ''5''" "strip ('' x'' @ CRLF) = ''x''"
    by code_simp+
  have n: "py_int ''5'' = Inr 5" by code_simp
  have h: "read_headers (''Host: x'' @ CRLF @ ''content-length: 5'' @ CRLF @ CRLF @ ''guestEXTRA'') Map.empty
      = Inr ([''host'' \<mapsto> ''x'', ''content-length'' \<mapsto> ''5''], ''guestEXTRA'')"
    using st by (simp add: read_headers.simps readline_def decode_utf8_def is_ascii_def cf)
  have lower: "read_request 65536 (''POST /add HTTP/1.0'' @ CRLF @ ''Host: x'' @ CRLF
                      @ ''content-length: 5'' @ CRLF @ CRLF @ ''guestEXTRA'') =
       Inr (\<lparr>rq_method = ''POST'', rq_url = ''/add'', rq_version = ''HTTP/1.0'' @ CRLF,
             rq_headers = [''host'' \<mapsto> ''x'', ''content-length'' \<mapsto> ''5''],
             rq_body = Some ''guest''\<rparr>, ''EXTRA'')"
    using h by (simp add: read_request_def readline_def decode_utf8_def is_ascii_def
        numeral_2_eq_2 read_body_def n read_def)
  have "read_request 65536 ((''POST /add HTTP/1.0'' @ CRLF) @ concat [''Host: x'' @ CRLF]
            @ ''Content-Length'' @ '':'' @ ('' 5'' @ CRLF @ CRLF @ ''guestEXTRA''))
      = read_request 65536 ((''POST /add HTTP/1.0'' @ CRLF) @ concat [''Host: x'' @ CRLF]
            @ ''content-length'' @ '':'' @ ('' 5'' @ CRLF @ CRLF @ ''guestEXTRA''))"
    using header_name_case_insensitive [OF d c l rl ls,
        where rest = "'' 5'' @ CRLF @ CRLF @ ''guestEXTRA''" and alloc_max = 65536 and entries = "[]"]
    by blast
  then have "read_request 65536 (''POST /add HTTP/1.0'' @ CRLF @ ''Host: x'' @ CRLF
                      @ ''Content-Length: 5'' @ CRLF @ CRLF @ ''guestEXTRA'')
      = read_request 65536 (''POST /add HTTP/1.0'' @ CRLF @ ''Host: x'' @ CRLF
                      @ ''content-length: 5'' @ CRLF @ CRLF @ ''guestEXTRA'')"
    by simp
  with lower have upper: "read_request 65536 (''POST /add HTTP/1.0'' @ CRLF @ ''Host: x'' @ CRLF
                      @ ''Content-Length: 5'' @ CRLF @ CRLF @ ''guestEXTRA'') =
       Inr (\<lparr>rq_method = ''POST'', rq_url = ''/add'', rq_version = ''HTTP/1.0'' @ CRLF,
             rq_headers = [''host'' \<mapsto> ''x'', ''content-length'' \<mapsto> ''5''],
             rq_body = Some ''guest''\<rparr>, ''EXTRA'')"
    by simp
  from d c l rl ls lower upper show ?thesis by blast
qed

section \<open>Properties of the guest book\<close>

lemma split_all_nonempty: "split_all sep s \<noteq> []"
  by (induction s) (auto split: list.splits)

lemma join_Cons: "xs \<noteq> [] \<Longrightarrow> join sep (x # xs) = x @ sep # join sep xs"
  by (cases xs) simp_all

lemma join_split_all: "join sep (split_all sep s) = s"
proof (induction s)
  case Nil
  show ?case by simp
next
  case (Cons c s)
  show ?case
  proof (cases "c = sep")
    case True
    with Cons show ?thesis by (simp add: join_Cons split_all_nonempty)
  next
    case False
    obtain x xs where sp: "split_all sep s = x # xs"
      using split_all_nonempty [of sep s] by (cases "split_all sep s") auto
    with Cons have "join sep ((c # x) # xs) = c # s"
      by (cases xs) auto
    with sp False show ?thesis by simp
  qed
qed

lemma split_all_no_sep: "f \<in> set (split_all sep s) \<Longrightarrow> sep \<notin> set f"
proof (induction s arbitrary: f)
  case Nil
  then show ?case by simp
next
  case (Cons c s)
  then show ?case
    by (cases "split_all sep s") (auto split: if_splits)
qed

lemma fold_update_map_of:
  "fold (\<lambda>kv m. m(fst kv \<mapsto> snd kv)) kvs m = m ++ map_of (rev kvs)"
proof (induction kvs arbitrary: m)
  case Nil
  show ?case by simp
next
  case (Cons kv kvs)
  have "fold (\<lambda>kv m. m(fst kv \<mapsto> snd kv)) (kv # kvs) m
      = fold (\<lambda>kv m. m(fst kv \<mapsto> snd kv)) kvs (m(fst kv \<mapsto> snd kv))"
    by (simp only: fold_simps)
  also have "\<dots> = m(fst kv \<mapsto> snd kv) ++ map_of (rev kvs)"
    by (rule Cons.IH)
  also have "m(fst kv \<mapsto> snd kv) = m ++ map_of [kv]"
    by (cases kv) simp
  also have "(m ++ map_of [kv]) ++ map_of (rev kvs) = m ++ map_of (rev (kv # kvs))"
    by (simp only: rev.simps map_of_append map_add_assoc)
  finally show ?case .
qed

lemma form_decode_fields_good:
  "list_all2 field_decodes_to fs kvs \<Longrightarrow>
     form_decode_fields fs params = Inr (fold (\<lambda>kv m. m(fst kv \<mapsto> snd kv)) kvs params)"
proof (induction fs kvs arbitrary: params rule: list_all2_induct)
  case Nil
  show ?case by simp
next
  case (Cons f fs kv kvs)
  from Cons.hyps(1) have "form_decode_fields (f # fs) params
      = form_decode_fields fs (params(fst kv \<mapsto> snd kv))"
    by (simp add: field_decodes_to_def)
  also have "\<dots> = Inr (fold (\<lambda>kv m. m(fst kv \<mapsto> snd kv)) kvs (params(fst kv \<mapsto> snd kv)))"
    by (rule Cons.IH)
  finally show ?case by (simp only: fold_simps)
qed

lemma form_decode_fields_bad:
  "list_all2 field_decodes_to good kvs \<Longrightarrow> CHR ''='' \<notin> set bad \<Longrightarrow>
     form_decode_fields (good @ bad # later) params = Inl ValueError_unpack"
proof (induction good kvs arbitrary: params rule: list_all2_induct)
  case Nil
  then show ?case by simp
next
  case (Cons f fs kv kvs)
  from Cons.hyps(1) have "form_decode_fields ((f # fs) @ bad # later) params
      = form_decode_fields (fs @ bad # later) (params(fst kv \<mapsto> snd kv))"
    by (simp add: field_decodes_to_def)
  also have "\<dots> = Inl ValueError_unpack"
    using Cons.prems by (rule Cons.IH)
  finally show ?case .
qed

lemma unquote_error: "unquote s = Inl e \<Longrightarrow> e = OutOfScope"
  by (induction s arbitrary: e rule: unquote.induct) (auto split: if_splits sum.splits)

lemma unquote_plus_error: "unquote_plus s = Inl e \<Longrightarrow> e = OutOfScope"
  unfolding unquote_plus_def by (rule unquote_error)

lemma form_decode_fields_missing:
  "\<exists>f \<in> set fs. CHR ''='' \<notin> set f \<Longrightarrow>
     form_decode_fields fs params = Inl ValueError_unpack
     \<or> form_decode_fields fs params = Inl OutOfScope"
proof (induction fs arbitrary: params)
  case Nil
  then show ?case by simp
next
  case (Cons f fs)
  show ?case
  proof (cases "CHR ''='' \<in> set f")
    case False
    then show ?thesis by simp
  next
    case True
    with Cons.prems have "\<exists>f \<in> set fs. CHR ''='' \<notin> set f" by auto
    then have "\<And>p. form_decode_fields fs p = Inl ValueError_unpack
       \<or> form_decode_fields fs p = Inl OutOfScope"
      by (rule Cons.IH)
    with True show ?thesis
      by (auto split: sum.splits dest: unquote_plus_error)
  qed
qed

text \<open>
  C5. \<open>form_decode\<close> splits the body at every \<open>&\<close> (the fields joined by \<open>&\<close> give the body
  back and hold no \<open>&\<close>); each field is split at its first \<open>=\<close>. A field with no \<open>=\<close>
  makes the call fail: with \<open>ValueError\<close> (the specification's \<open>MissingEquals\<close>) when the
  fields before it decode, and never with a result. When every field has an \<open>=\<close> and
  decodes, the result is the dictionary of the decoded pairs, a later pair replacing an
  earlier one with the same key. The example of the specification is the last conjunct.
\<close>

theorem form_decode_contract:
  "join (CHR ''&'') (split_all (CHR ''&'') b) = b
   \<and> (\<forall>f \<in> set (split_all (CHR ''&'') b). CHR ''&'' \<notin> set f)
   \<and> ((\<exists>f \<in> set (split_all (CHR ''&'') b). CHR ''='' \<notin> set f) \<longrightarrow>
        form_decode (Some b) = Inl ValueError_unpack \<or> form_decode (Some b) = Inl OutOfScope)
   \<and> (\<forall>good bad later kvs.
        split_all (CHR ''&'') b = good @ bad # later \<and> list_all2 field_decodes_to good kvs
          \<and> CHR ''='' \<notin> set bad \<longrightarrow>
        form_decode (Some b) = Inl ValueError_unpack)
   \<and> (\<forall>kvs. list_all2 field_decodes_to (split_all (CHR ''&'') b) kvs \<longrightarrow>
        form_decode (Some b) = Inr (map_of (rev kvs)))
   \<and> form_decode (Some ''guest=Hello+World%21'') = Inr [''guest'' \<mapsto> ''Hello World!'']"
proof (intro conjI)
  show "join (CHR ''&'') (split_all (CHR ''&'') b) = b"
    by (rule join_split_all)
  show "\<forall>f \<in> set (split_all (CHR ''&'') b). CHR ''&'' \<notin> set f"
    using split_all_no_sep by blast
  show "(\<exists>f \<in> set (split_all (CHR ''&'') b). CHR ''='' \<notin> set f) \<longrightarrow>
        form_decode (Some b) = Inl ValueError_unpack \<or> form_decode (Some b) = Inl OutOfScope"
    using form_decode_fields_missing [of "split_all (CHR ''&'') b" Map.empty]
    by (simp add: form_decode_def)
  show "\<forall>good bad later kvs.
        split_all (CHR ''&'') b = good @ bad # later \<and> list_all2 field_decodes_to good kvs
          \<and> CHR ''='' \<notin> set bad \<longrightarrow>
        form_decode (Some b) = Inl ValueError_unpack"
    using form_decode_fields_bad [where params = Map.empty]
    by (auto simp: form_decode_def)
  show "\<forall>kvs. list_all2 field_decodes_to (split_all (CHR ''&'') b) kvs \<longrightarrow>
        form_decode (Some b) = Inr (map_of (rev kvs))"
    by (simp add: form_decode_def form_decode_fields_good fold_update_map_of)
  have "char_of (33::nat) = CHR ''!''" by code_simp
  then show "form_decode (Some ''guest=Hello+World%21'') = Inr [''guest'' \<mapsto> ''Hello World!'']"
    by (simp add: form_decode_def unquote_plus_def is_hexdig_def hexdig_value_def)
qed

theorem form_decode_contract_witness:
  "split_all (CHR ''&'') ''a=1&b&c=2'' = [''a=1''] @ ''b'' # [''c=2'']
   \<and> list_all2 field_decodes_to [''a=1''] [(''a'', ''1'')]
   \<and> CHR ''='' \<notin> set ''b''
   \<and> form_decode (Some ''a=1&b&c=2'') = Inl ValueError_unpack
   \<and> list_all2 field_decodes_to (split_all (CHR ''&'') ''x=1&y=a+b&x=%41'')
        [(''x'', ''1''), (''y'', ''a b''), (''x'', ''A'')]
   \<and> form_decode (Some ''x=1&y=a+b&x=%41'') = Inr [''y'' \<mapsto> ''a b'', ''x'' \<mapsto> ''A'']"
proof -
  have c: "char_of (65::nat) = CHR ''A''" by code_simp
  have s1: "split_all (CHR ''&'') ''a=1&b&c=2'' = [''a=1''] @ ''b'' # [''c=2'']" by simp
  have g1: "list_all2 field_decodes_to [''a=1''] [(''a'', ''1'')]"
    by (simp add: field_decodes_to_def unquote_plus_def)
  have b1: "CHR ''='' \<notin> set ''b''" by simp
  have r1: "form_decode (Some ''a=1&b&c=2'') = Inl ValueError_unpack"
    using form_decode_contract [of "''a=1&b&c=2''"] s1 g1 b1 by blast
  have g2: "list_all2 field_decodes_to (split_all (CHR ''&'') ''x=1&y=a+b&x=%41'')
        [(''x'', ''1''), (''y'', ''a b''), (''x'', ''A'')]"
    by (simp add: field_decodes_to_def unquote_plus_def is_hexdig_def hexdig_value_def c)
  have "form_decode (Some ''x=1&y=a+b&x=%41'') =
      Inr (map_of (rev [(''x'', ''1''), (''y'', ''a b''), (''x'', ''A'')]))"
    using form_decode_contract [of "''x=1&y=a+b&x=%41''"] g2 by blast
  also have "map_of (rev [(''x'', ''1''), (''y'', ''a b''), (''x'', ''A'')])
      = [''y'' \<mapsto> ''a b'', ''x'' \<mapsto> ''A'']"
    by (auto simp: fun_eq_iff)
  finally have r2: "form_decode (Some ''x=1&y=a+b&x=%41'') = Inr [''y'' \<mapsto> ''a b'', ''x'' \<mapsto> ''A'']" .
  from s1 g1 b1 r1 g2 r2 show ?thesis by blast
qed

text \<open>
  C9. The entry list after \<open>do_request\<close> is the list before it, except for \<open>POST /add\<close>
  with a decoded form that has the key \<open>guest\<close>: then the decoded value is appended and
  nothing else changes. A call that raises leaves the list as it was, and so a
  connection changes the list by at most one appended entry.
\<close>

theorem entries_frame:
  "(\<not> (m = ''POST'' \<and> u = ''/add'') \<longrightarrow> snd (do_request m u hs b es) = es)
   \<and> (\<forall>e. form_decode b = Inl e \<longrightarrow> snd (do_request m u hs b es) = es)
   \<and> (\<forall>params. form_decode b = Inr params \<and> params ''guest'' = None \<longrightarrow>
         snd (do_request m u hs b es) = es)
   \<and> (\<forall>params g. m = ''POST'' \<and> u = ''/add'' \<and> form_decode b = Inr params
           \<and> params ''guest'' = Some g \<longrightarrow>
         snd (do_request m u hs b es) = es @ [g])
   \<and> snd (handle_connection alloc_max conx es) =
        (case read_request alloc_max conx of
           Inl e \<Rightarrow> es
         | Inr (r, rest) \<Rightarrow> snd (do_request (rq_method r) (rq_url r) (rq_headers r) (rq_body r) es))
   \<and> (snd (handle_connection alloc_max conx es) = es
        \<or> (\<exists>g. snd (handle_connection alloc_max conx es) = es @ [g]))"
proof -
  have step: "snd (do_request m u hs b es) = es \<or> (\<exists>g. snd (do_request m u hs b es) = es @ [g])"
    for m u hs b
    by (auto simp: do_request_def add_entry_def Let_def split: sum.splits option.splits)
  have conn: "snd (handle_connection alloc_max conx es) =
        (case read_request alloc_max conx of
           Inl e \<Rightarrow> es
         | Inr (r, rest) \<Rightarrow> snd (do_request (rq_method r) (rq_url r) (rq_headers r) (rq_body r) es))"
    by (auto simp: handle_connection_def split: sum.splits prod.splits)
  have "snd (handle_connection alloc_max conx es) = es \<or> (\<exists>g. snd (handle_connection alloc_max conx es) = es @ [g])"
    unfolding conn using step by (auto split: sum.splits)
  with conn show ?thesis
    by (auto simp: do_request_def add_entry_def Let_def)
qed

theorem entries_frame_witness:
  "form_decode (Some ''guest=hello'') = Inr [''guest'' \<mapsto> ''hello'']
   \<and> snd (do_request ''POST'' ''/add'' Map.empty (Some ''guest=hello'') [''a'', ''b'']) = [''a'', ''b'', ''hello'']
   \<and> form_decode (Some ''name=hello'') = Inr [''name'' \<mapsto> ''hello'']
   \<and> snd (do_request ''POST'' ''/add'' Map.empty (Some ''name=hello'') [''a'', ''b'']) = [''a'', ''b'']
   \<and> form_decode (Some ''guest'') = Inl ValueError_unpack
   \<and> snd (do_request ''POST'' ''/add'' Map.empty (Some ''guest'') [''a'', ''b'']) = [''a'', ''b'']
   \<and> snd (do_request ''GET'' ''/add'' Map.empty (Some ''guest=hello'') [''a'', ''b'']) = [''a'', ''b'']"
proof -
  have f1: "form_decode (Some ''guest=hello'') = Inr [''guest'' \<mapsto> ''hello'']"
    by (simp add: form_decode_def unquote_plus_def)
  have g1: "[''guest'' \<mapsto> ''hello''] ''guest'' = Some ''hello''" by simp
  have r1: "snd (do_request ''POST'' ''/add'' Map.empty (Some ''guest=hello'') [''a'', ''b'']) = [''a'', ''b''] @ [''hello'']"
    using entries_frame [of "''POST''" "''/add''" Map.empty "Some ''guest=hello''" "[''a'', ''b'']" 65536 "[]"] f1 g1
    by blast
  have f2: "form_decode (Some ''name=hello'') = Inr [''name'' \<mapsto> ''hello'']"
    by (simp add: form_decode_def unquote_plus_def)
  have g2: "[''name'' \<mapsto> ''hello''] ''guest'' = None" by simp
  have r2: "snd (do_request ''POST'' ''/add'' Map.empty (Some ''name=hello'') [''a'', ''b'']) = [''a'', ''b'']"
    using entries_frame [of "''POST''" "''/add''" Map.empty "Some ''name=hello''" "[''a'', ''b'']" 65536 "[]"] f2 g2
    by blast
  have f3: "form_decode (Some ''guest'') = Inl ValueError_unpack"
    by (simp add: form_decode_def)
  have r3: "snd (do_request ''POST'' ''/add'' Map.empty (Some ''guest'') [''a'', ''b'']) = [''a'', ''b'']"
    using entries_frame [of "''POST''" "''/add''" Map.empty "Some ''guest''" "[''a'', ''b'']" 65536 "[]"] f3
    by blast
  have r4: "snd (do_request ''GET'' ''/add'' Map.empty (Some ''guest=hello'') [''a'', ''b'']) = [''a'', ''b'']"
    using entries_frame [of "''GET''" "''/add''" Map.empty "Some ''guest=hello''" "[''a'', ''b'']" 65536 "[]"]
    by simp
  from f1 r1 f2 r2 f3 r3 r4 show ?thesis by simp
qed

text \<open>
  C10. Whenever \<open>do_request\<close> returns, the status is \<open>200 OK\<close> or \<open>404 Not Found\<close>, and it is
  the latter exactly when neither route matches.
\<close>

theorem status_200_or_404:
  assumes "fst (do_request m u hs b es) = Inr (status, page)"
  shows "(status = ''200 OK'' \<or> status = ''404 Not Found'')
       \<and> (status = ''404 Not Found'' \<longleftrightarrow> \<not> (m = ''GET'' \<and> u = ''/'') \<and> \<not> (m = ''POST'' \<and> u = ''/add''))"
  using assms by (auto simp: do_request_def split: if_splits sum.splits)

theorem status_200_or_404_witness:
  "fst (do_request ''GET'' ''/'' Map.empty None [''a'']) =
      Inr (''200 OK'', show_comments [''a''])
   \<and> fst (do_request ''GET'' ''/missing'' Map.empty None [''a'']) =
      Inr (''404 Not Found'', ''<!doctype html><h1>GET /missing not found!</h1>'')
   \<and> ''200 OK'' \<noteq> ''404 Not Found''"
proof -
  have a: "fst (do_request ''GET'' ''/'' Map.empty None [''a'']) =
      Inr (''200 OK'', show_comments [''a''])"
    by (simp add: do_request_def)
  have b: "fst (do_request ''GET'' ''/missing'' Map.empty None [''a'']) =
      Inr (''404 Not Found'', ''<!doctype html><h1>GET /missing not found!</h1>'')"
    by (simp add: do_request_def not_found_def)
  from status_200_or_404 [OF a] status_200_or_404 [OF b] a b show ?thesis by simp
qed

end
